theory Spec2Isabelle
  imports Main "HOL-Library.Word" "HOL-Library.List_Lexorder"
begin

section \<open>TinyJson: value model, cursor, parser and serializer\<close>

text \<open>
  A shallow embedding of \<^verbatim>\<open>include/TinyJson.h\<close>.

  \<^item> A code point (\<^verbatim>\<open>char32_t\<close>) is a natural number; the end-of-file sentinel of the
    stream is \<open>None\<close>.
  \<^item> A \<^verbatim>\<open>u32_istream\<close> is the list of code points still to be read: \<^verbatim>\<open>peek\<close> looks at
    the head, \<^verbatim>\<open>get\<close> removes it, and every routine returns the stream it leaves behind.
  \<^item> A \<^verbatim>\<open>std::string\<close> holding UTF-8 is represented by the code points it encodes, so
    \<^verbatim>\<open>U32ToU8\<close> and \<^verbatim>\<open>U8ToU32\<close> are the identity. The code inspects the bytes of such a
    string only for ASCII characters (trimming, the digit test, the comparisons with
    \<^verbatim>\<open>"true"\<close>, \<^verbatim>\<open>"false"\<close>, \<^verbatim>\<open>"null"\<close>, the number conversions), and the bytes of a
    multi-byte sequence are never ASCII; byte-wise order of UTF-8 is code point order.
    Byte strings that are not UTF-8 have no representation here.
  \<^item> An exception is a value \<open>Inl e\<close> of the result type.
  \<^item> \<^verbatim>\<open>double\<close> is a type parameter \<open>'d\<close>. The two library routines that touch its
    value are parameters of the model: \<open>conv\<close> is the value \<^verbatim>\<open>std::stod\<close> gives to a
    numeral (\<open>None\<close> when it reports a range error), \<open>fmt\<close> is
    \<^verbatim>\<open>std::to_string(double)\<close>. Which characters \<^verbatim>\<open>std::stod\<close> consumes is modelled in
    full.
  \<^item> Where the code leaves a result to chance, nothing is known of it here: a call of
    \<^verbatim>\<open><cctype>\<close> with a code point above 255 (\<open>out_of_range\<close>), and the variable
    that \<^verbatim>\<open>parse_hex\<close> returns without having written it (\<open>uc_unwritten\<close>).
\<close>

type_synonym char32 = nat
type_synonym u32string = "char32 list"
type_synonym u8string = "char32 list"

text \<open>The code points of an ASCII literal.\<close>

definition u32 :: "string \<Rightarrow> u32string" where
  "u32 s = map of_char s"

definition U32ToU8 :: "u32string \<Rightarrow> u8string" where
  "U32ToU8 s = s"

definition U8ToU32 :: "u8string \<Rightarrow> u32string" where
  "U8ToU32 s = s"

subsection \<open>Kinds and errors\<close>

datatype json_t =
    string_t | number_integer_t | number_double_t | array_t
  | boolean_t | object_t | null_t | invalid_t

text \<open>
  One constructor per \<^verbatim>\<open>throw\<close> of the header, and two for the exceptions of
  \<^verbatim>\<open>std::stoll\<close> and \<^verbatim>\<open>std::stod\<close>. \<open>TypeMismatch t1 t2\<close> carries the two arguments of the
  macro \<^verbatim>\<open>CHECK_TYPE_MISMATCH(t1, t2)\<close> in the macro's order; its message is
  \<^verbatim>\<open>"expect type t1, but found type t2"\<close>. \<open>NoProgress\<close> is no exception of the code: it is
  the value of a branch of the parser's loops that is never taken (see \<open>parse_value\<close>).
\<close>

datatype error =
    TypeMismatch json_t json_t
  | UnexpectedJsonType json_t
  | KeyNotFound u8string
  | IndexOutOfRange int
  | CannotCast json_t
  | InvalidJsonType
  | InvalidJsonFormat
  | UnexpectedCharacter
  | InvalidObjectFormat
  | ExpectedCharNotFound char32
  | UnexpectedNullString
  | InvalidBooleanString
  | UnexpectedIntegerFormat
  | UnexpectedDoubleFormat
  | StdInvalidArgument
  | StdOutOfRange
  | BackslashInvalid
  | NotHexNumber
  | NoProgress

subsection \<open>Character classes of the C library (the "C" locale)\<close>

text \<open>
  The classes as the routines of the library apply them to the characters of a
  \<^verbatim>\<open>std::string\<close> (\<^verbatim>\<open>strtoll\<close>, \<^verbatim>\<open>strtod\<close>, the \<^verbatim>\<open>std::transform\<close> of \<^verbatim>\<open>to_bool\<close>).
\<close>

definition isspace :: "char32 \<Rightarrow> bool" where
  "isspace c \<longleftrightarrow> c = 32 \<or> (9 \<le> c \<and> c \<le> 13)"

definition isdigit :: "char32 \<Rightarrow> bool" where
  "isdigit c \<longleftrightarrow> 48 \<le> c \<and> c \<le> 57"

definition isxdigit :: "char32 \<Rightarrow> bool" where
  "isxdigit c \<longleftrightarrow> isdigit c \<or> (97 \<le> c \<and> c \<le> 102) \<or> (65 \<le> c \<and> c \<le> 70)"

definition isalnum :: "char32 \<Rightarrow> bool" where
  "isalnum c \<longleftrightarrow> isdigit c \<or> (97 \<le> c \<and> c \<le> 122) \<or> (65 \<le> c \<and> c \<le> 90)"

definition tolower :: "char32 \<Rightarrow> char32" where
  "tolower c = (if 65 \<le> c \<and> c \<le> 90 then c + 32 else c)"

text \<open>
  The parser calls \<^verbatim>\<open>std::isspace\<close>, \<^verbatim>\<open>isxdigit\<close> and \<^verbatim>\<open>std::tolower\<close> with a code point
  of the stream as the argument. \<^verbatim>\<open><cctype>\<close> defines these functions on the values of
  \<^verbatim>\<open>unsigned char\<close> only: for a code point above 255 the result is whatever the library
  happens to return, and nothing is known of it here (\<open>out_of_range\<close>, one unknown result
  for each function and argument).
\<close>

definition out_of_range :: "string \<Rightarrow> char32 \<Rightarrow> 'a" where
  "out_of_range f c = undefined f c"

definition std_isspace :: "char32 \<Rightarrow> bool" where
  "std_isspace c = (if c \<le> 255 then isspace c else out_of_range ''isspace'' c)"

definition std_isxdigit :: "char32 \<Rightarrow> bool" where
  "std_isxdigit c = (if c \<le> 255 then isxdigit c else out_of_range ''isxdigit'' c)"

definition std_tolower :: "char32 \<Rightarrow> char32" where
  "std_tolower c = (if c \<le> 255 then tolower c else out_of_range ''tolower'' c)"

subsection \<open>Cursor\<close>

definition peek :: "u32string \<Rightarrow> char32 option" where
  "peek s = (case s of [] \<Rightarrow> None | c # r \<Rightarrow> Some c)"

definition get :: "u32string \<Rightarrow> char32 option \<times> u32string" where
  "get s = (case s of [] \<Rightarrow> (None, []) | c # r \<Rightarrow> (Some c, r))"

text \<open>
  \<^verbatim>\<open>skip_space\<close>: remove code points while \<^verbatim>\<open>std::isspace\<close> accepts the next one. The
  spaces of the parser are the code points that this call accepts: the six spaces of the
  "C" locale among the code points up to 255, and above 255 those for which the call
  happens to return non-zero.
\<close>

definition skip_space :: "u32string \<Rightarrow> u32string" where
  "skip_space s = dropWhile std_isspace s"

definition get_next_non_space :: "u32string \<Rightarrow> char32 option \<times> u32string" where
  "get_next_non_space s = get (skip_space s)"

definition peek_next_non_space :: "u32string \<Rightarrow> char32 option \<times> u32string" where
  "peek_next_non_space s = (peek (skip_space s), skip_space s)"

definition skip_char :: "u32string \<Rightarrow> char32 \<Rightarrow> error + u32string" where
  "skip_char s expected =
     (case skip_space s of
        [] \<Rightarrow> Inl (ExpectedCharNotFound expected)
      | c # r \<Rightarrow> if c \<noteq> expected then Inl (ExpectedCharNotFound expected) else Inr r)"

subsection \<open>Strings of the standard library\<close>

text \<open>
  \<^verbatim>\<open>find_first_not_of\<close> and \<^verbatim>\<open>find_last_not_of\<close> give \<open>None\<close> for \<^verbatim>\<open>npos\<close>;
  \<^verbatim>\<open>substr(pos, n)\<close> is used with \<open>pos\<close> inside the string only.
\<close>

definition find_first_not_of :: "u8string \<Rightarrow> u8string \<Rightarrow> nat option" where
  "find_first_not_of str chars =
     (let i = length (takeWhile (\<lambda>c. c \<in> set chars) str)
      in if i = length str then None else Some i)"

definition find_last_not_of :: "u8string \<Rightarrow> u8string \<Rightarrow> nat option" where
  "find_last_not_of str chars =
     (let i = length (takeWhile (\<lambda>c. c \<in> set chars) (rev str))
      in if i = length str then None else Some (length str - 1 - i))"

definition substr :: "u8string \<Rightarrow> nat \<Rightarrow> nat \<Rightarrow> u8string" where
  "substr str pos n = take n (drop pos str)"

definition whitespace :: u8string where
  "whitespace = [32, 9, 13, 10]"

definition trim :: "u8string \<Rightarrow> u8string" where
  "trim str =
     (case find_first_not_of str whitespace of
        None \<Rightarrow> []
      | Some strBegin \<Rightarrow>
          (case find_last_not_of str whitespace of
             None \<Rightarrow> []
           | Some strEnd \<Rightarrow> substr str strBegin (strEnd - strBegin + 1)))"

subsection \<open>Number conversions of the standard library\<close>

text \<open>The value of a sequence of decimal digits, and of hexadecimal digits.\<close>

definition digit_val :: "char32 \<Rightarrow> nat" where
  "digit_val c =
     (if isdigit c then c - 48 else if 97 \<le> c \<and> c \<le> 102 then c - 87 else c - 55)"

definition digits_value :: "nat \<Rightarrow> u8string \<Rightarrow> nat" where
  "digits_value base ds = foldl (\<lambda>acc c. acc * base + digit_val c) 0 ds"

text \<open>
  \<^verbatim>\<open>std::stoll(str, &pos)\<close>, that is \<^verbatim>\<open>strtoll\<close> in base 10: leading space, an optional
  sign, decimal digits. No digit is \<^verbatim>\<open>std::invalid_argument\<close>, a value outside
  \<^verbatim>\<open>long long\<close> is \<^verbatim>\<open>std::out_of_range\<close>. The result is the value and \<open>pos\<close>, the
  number of characters consumed.
\<close>

definition stoll :: "u8string \<Rightarrow> error + (64 word \<times> nat)" where
  "stoll str =
     (let s0 = dropWhile isspace str;
          ws = length str - length s0;
          neg = (case s0 of [] \<Rightarrow> False | c # r \<Rightarrow> c = 45);
          sg = (case s0 of [] \<Rightarrow> 0 | c # r \<Rightarrow> if c = 45 \<or> c = 43 then 1 else 0);
          ds = takeWhile isdigit (drop sg s0);
          v = (if neg then - int (digits_value 10 ds) else int (digits_value 10 ds))
      in if ds = [] then Inl StdInvalidArgument
         else if v < - (2 ^ 63) \<or> 2 ^ 63 \<le> v then Inl StdOutOfRange
         else Inr (word_of_int v, ws + sg + length ds))"

text \<open>
  The characters \<^verbatim>\<open>strtod\<close> consumes after the sign (C11, 7.22.1.3): the longest prefix
  that is a decimal numeral (digits with an optional point, at least one digit, then an
  optional exponent with at least one digit), a hexadecimal numeral, \<^verbatim>\<open>inf\<close> or
  \<^verbatim>\<open>infinity\<close>, or \<^verbatim>\<open>nan\<close> with an optional parenthesised sequence; letters in any case.
  \<open>None\<close> when no prefix has one of these forms.
\<close>

definition exponent_len :: "char32 \<Rightarrow> u8string \<Rightarrow> nat" where
  "exponent_len marker s =
     (case s of
        [] \<Rightarrow> 0
      | c # r \<Rightarrow>
          if tolower c \<noteq> marker then 0
          else
            (let sg = (case r of [] \<Rightarrow> 0 | d # r' \<Rightarrow> if d = 45 \<or> d = 43 then 1 else 0);
                 ds = takeWhile isdigit (drop sg r)
             in if ds = [] then 0 else 1 + sg + length ds))"

definition mantissa_len :: "(char32 \<Rightarrow> bool) \<Rightarrow> u8string \<Rightarrow> nat option" where
  "mantissa_len is_digit s =
     (let d1 = takeWhile is_digit s;
          r = drop (length d1) s;
          d2 = (case r of [] \<Rightarrow> [] | c # r' \<Rightarrow> if c = 46 then takeWhile is_digit r' else []);
          pt = (case r of [] \<Rightarrow> 0 | c # r' \<Rightarrow> if c = 46 then 1 else 0)
      in if d1 = [] \<and> d2 = [] then None else Some (length d1 + pt + length d2))"

definition decimal_len :: "u8string \<Rightarrow> nat option" where
  "decimal_len s =
     (case mantissa_len isdigit s of
        None \<Rightarrow> None
      | Some n \<Rightarrow> Some (n + exponent_len 101 (drop n s)))"

definition hex_len :: "u8string \<Rightarrow> nat option" where
  "hex_len s =
     (if map tolower (take 2 s) = [48, 120] then
        (case mantissa_len isxdigit (drop 2 s) of
           None \<Rightarrow> None
         | Some n \<Rightarrow> Some (2 + n + exponent_len 112 (drop (2 + n) s)))
      else None)"

definition inf_len :: "u8string \<Rightarrow> nat option" where
  "inf_len s =
     (if map tolower (take 8 s) = [105, 110, 102, 105, 110, 105, 116, 121] then Some 8
      else if map tolower (take 3 s) = [105, 110, 102] then Some 3
      else None)"

definition nan_len :: "u8string \<Rightarrow> nat option" where
  "nan_len s =
     (if map tolower (take 3 s) = [110, 97, 110] then
        (case drop 3 s of
           [] \<Rightarrow> Some 3
         | c # r \<Rightarrow>
             if c = 40 then
               (let cs = takeWhile (\<lambda>x. isalnum x \<or> x = 95) r
                in case drop (length cs) r of
                     [] \<Rightarrow> Some 3
                   | e # r' \<Rightarrow> if e = 41 then Some (3 + 1 + length cs + 1) else Some 3)
             else Some 3)
      else None)"

definition strtod_len :: "u8string \<Rightarrow> nat option" where
  "strtod_len s =
     (case hex_len s of
        Some n \<Rightarrow> Some n
      | None \<Rightarrow>
          (case decimal_len s of
             Some n \<Rightarrow> Some n
           | None \<Rightarrow>
               (case inf_len s of
                  Some n \<Rightarrow> Some n
                | None \<Rightarrow> nan_len s)))"

text \<open>
  \<^verbatim>\<open>std::stod(str, &pos)\<close>: leading space, an optional sign, the numeral. No numeral is
  \<^verbatim>\<open>std::invalid_argument\<close>; a range error of the conversion (\<open>conv\<close> gives \<open>None\<close> for
  the signed numeral) is \<^verbatim>\<open>std::out_of_range\<close>.
\<close>

definition stod :: "(u8string \<Rightarrow> 'd option) \<Rightarrow> u8string \<Rightarrow> error + ('d \<times> nat)" where
  "stod conv str =
     (let s0 = dropWhile isspace str;
          ws = length str - length s0;
          sg = (case s0 of [] \<Rightarrow> 0 | c # r \<Rightarrow> if c = 45 \<or> c = 43 then 1 else 0)
      in case strtod_len (drop sg s0) of
           None \<Rightarrow> Inl StdInvalidArgument
         | Some n \<Rightarrow>
             (case conv (take (sg + n) s0) of
                None \<Rightarrow> Inl StdOutOfRange
              | Some num \<Rightarrow> Inr (num, ws + sg + n)))"

definition to_integer :: "u8string \<Rightarrow> error + 64 word" where
  "to_integer str =
     (case stoll str of
        Inl e \<Rightarrow> Inl e
      | Inr (num, pos) \<Rightarrow>
          if pos \<noteq> length str then Inl UnexpectedIntegerFormat else Inr num)"

definition to_double :: "(u8string \<Rightarrow> 'd option) \<Rightarrow> u8string \<Rightarrow> error + 'd" where
  "to_double conv str =
     (case stod conv str of
        Inl e \<Rightarrow> Inl e
      | Inr (num, pos) \<Rightarrow>
          if pos \<noteq> length str then Inl UnexpectedDoubleFormat else Inr num)"

definition to_bool :: "u8string \<Rightarrow> error + bool" where
  "to_bool str =
     (let s = map tolower str
      in if s = u32 ''true'' then Inr True
         else if s = u32 ''false'' then Inr False
         else Inl InvalidBooleanString)"

subsection \<open>Values\<close>

text \<open>
  The class \<^verbatim>\<open>json\<close> is a tag \<^verbatim>\<open>_type\<close> and an untyped pointer \<^verbatim>\<open>_value\<close> to the
  payload: a constructor per tag, with the payload the constructors of the class store
  under it. The selectors read the payload as the casts
  \<^verbatim>\<open>*static_cast<T *>(_value)\<close> do; the code uses them after the tag is checked.

  \<^verbatim>\<open>json_object\<close> is \<^verbatim>\<open>std::map<std::string, json>\<close>: the list of its entries in
  iteration order, that is by ascending key. \<open>map_find\<close>, \<open>map_assign\<close> are \<^verbatim>\<open>find\<close> and
  \<^verbatim>\<open>operator[]\<close> followed by an assignment; \<open>map_wf\<close> is the invariant of the container.
\<close>

datatype 'd json =
    JString (string_val: u8string)
  | JInteger (integer_val: "64 word")
  | JDouble (double_val: 'd)
  | JArray (array_val: "'d json list")
  | JBoolean (bool_val: bool)
  | JObject (object_val: "(u8string \<times> 'd json) list")
  | JNull
  | JInvalid

type_synonym 'd json_object = "(u8string \<times> 'd json) list"
type_synonym 'd json_array = "'d json list"

fun map_find :: "(u8string \<times> 'v) list \<Rightarrow> u8string \<Rightarrow> 'v option" where
  "map_find [] k = None"
| "map_find ((k', v') # m) k = (if k = k' then Some v' else map_find m k)"

fun map_assign :: "u8string \<Rightarrow> 'v \<Rightarrow> (u8string \<times> 'v) list \<Rightarrow> (u8string \<times> 'v) list" where
  "map_assign k v [] = [(k, v)]"
| "map_assign k v ((k', v') # m) =
     (if k < k' then (k, v) # (k', v') # m
      else if k = k' then (k, v) # m
      else (k', v') # map_assign k v m)"

definition map_wf :: "(u8string \<times> 'v) list \<Rightarrow> bool" where
  "map_wf m \<longleftrightarrow> sorted_wrt (<) (map fst m)"

fun json_type :: "'d json \<Rightarrow> json_t" where
  "json_type (JString s) = string_t"
| "json_type (JInteger n) = number_integer_t"
| "json_type (JDouble d) = number_double_t"
| "json_type (JArray xs) = array_t"
| "json_type (JBoolean b) = boolean_t"
| "json_type (JObject m) = object_t"
| "json_type JNull = null_t"
| "json_type JInvalid = invalid_t"

definition CHECK_TYPE_MISMATCH :: "json_t \<Rightarrow> json_t \<Rightarrow> error + unit" where
  "CHECK_TYPE_MISMATCH t1 t2 = (if t1 \<noteq> t2 then Inl (TypeMismatch t1 t2) else Inr ())"

definition get_string :: "'d json \<Rightarrow> error + u8string" where
  "get_string this =
     (case CHECK_TYPE_MISMATCH (json_type this) string_t of
        Inl e \<Rightarrow> Inl e | Inr u \<Rightarrow> Inr (string_val this))"

definition get_integer :: "'d json \<Rightarrow> error + 64 word" where
  "get_integer this =
     (case CHECK_TYPE_MISMATCH (json_type this) number_integer_t of
        Inl e \<Rightarrow> Inl e | Inr u \<Rightarrow> Inr (integer_val this))"

definition get_double :: "'d json \<Rightarrow> error + 'd" where
  "get_double this =
     (case CHECK_TYPE_MISMATCH (json_type this) number_double_t of
        Inl e \<Rightarrow> Inl e | Inr u \<Rightarrow> Inr (double_val this))"

definition get_bool :: "'d json \<Rightarrow> error + bool" where
  "get_bool this =
     (case CHECK_TYPE_MISMATCH (json_type this) boolean_t of
        Inl e \<Rightarrow> Inl e | Inr u \<Rightarrow> Inr (bool_val this))"

definition get_object :: "'d json \<Rightarrow> error + 'd json_object" where
  "get_object this =
     (case CHECK_TYPE_MISMATCH (json_type this) object_t of
        Inl e \<Rightarrow> Inl e | Inr u \<Rightarrow> Inr (object_val this))"

definition get_array :: "'d json \<Rightarrow> error + 'd json_array" where
  "get_array this =
     (case CHECK_TYPE_MISMATCH (json_type this) array_t of
        Inl e \<Rightarrow> Inl e | Inr u \<Rightarrow> Inr (array_val this))"

text \<open>\<^verbatim>\<open>get_null\<close> returns \<^verbatim>\<open>nullptr\<close>: the unit value.\<close>

definition get_null :: "'d json \<Rightarrow> error + unit" where
  "get_null this =
     (case CHECK_TYPE_MISMATCH (json_type this) null_t of
        Inl e \<Rightarrow> Inl e | Inr u \<Rightarrow> Inr ())"

definition has_member :: "'d json \<Rightarrow> u8string \<Rightarrow> error + bool" where
  "has_member this member_name =
     (case CHECK_TYPE_MISMATCH (json_type this) object_t of
        Inl e \<Rightarrow> Inl e
      | Inr u \<Rightarrow> Inr (map_find (object_val this) member_name \<noteq> None))"

text \<open>The mutators return the value they leave in \<^verbatim>\<open>*this\<close>.\<close>

definition add_member :: "'d json \<Rightarrow> u8string \<Rightarrow> 'd json \<Rightarrow> error + 'd json" where
  "add_member this member_name member_value =
     (case CHECK_TYPE_MISMATCH (json_type this) object_t of
        Inl e \<Rightarrow> Inl e
      | Inr u \<Rightarrow> Inr (JObject (map_assign member_name member_value (object_val this))))"

definition add_element :: "'d json \<Rightarrow> 'd json \<Rightarrow> error + 'd json" where
  "add_element this elem =
     (case CHECK_TYPE_MISMATCH (json_type this) array_t of
        Inl e \<Rightarrow> Inl e
      | Inr u \<Rightarrow> Inr (JArray (array_val this @ [elem])))"

definition size_json :: "'d json \<Rightarrow> error + nat" where
  "size_json this =
     (if json_type this = array_t then Inr (length (array_val this))
      else if json_type this = object_t then Inr (length (object_val this))
      else Inl (UnexpectedJsonType (json_type this)))"

text \<open>\<^verbatim>\<open>operator[](const char *key)\<close> and \<^verbatim>\<open>operator[](int index)\<close>, read as values.\<close>

definition index_key :: "'d json \<Rightarrow> u8string \<Rightarrow> error + 'd json" where
  "index_key this key =
     (case CHECK_TYPE_MISMATCH (json_type this) object_t of
        Inl e \<Rightarrow> Inl e
      | Inr u \<Rightarrow>
          (case map_find (object_val this) key of
             None \<Rightarrow> Inl (KeyNotFound key)
           | Some v \<Rightarrow> Inr v))"

definition index_pos :: "'d json \<Rightarrow> int \<Rightarrow> error + 'd json" where
  "index_pos this index =
     (case CHECK_TYPE_MISMATCH (json_type this) array_t of
        Inl e \<Rightarrow> Inl e
      | Inr u \<Rightarrow>
          if index < 0 \<or> length (array_val this) \<le> nat index then Inl (IndexOutOfRange index)
          else Inr (array_val this ! nat index))"

subsection \<open>Parser: strings and scalars\<close>

function hex_loop :: "nat \<Rightarrow> u32string \<Rightarrow> u32string \<Rightarrow> error + (u32string \<times> u32string)" where
  "hex_loop i cs s =
     (if i < 4 then
        (case get s of
           (None, s') \<Rightarrow> Inl NotHexNumber
         | (Some c, s') \<Rightarrow>
             if std_isxdigit c then hex_loop (i + 1) (cs @ [c]) s' else Inl NotHexNumber)
      else Inr (cs, s))"
  by pat_completeness auto
termination
  by (relation "measure (\<lambda>(i, cs, s). 4 - i)") auto

declare hex_loop.simps [simp del]

text \<open>
  \<^verbatim>\<open>parse_hex\<close> copies the four digits to a \<^verbatim>\<open>std::basic_stringstream<char32_t>\<close> and
  reads them with \<^verbatim>\<open>is >> std::hex >> uc\<close> into \<^verbatim>\<open>unsigned int uc\<close>, declared without a
  value. The standard library has no conversion facets for streams of \<^verbatim>\<open>char32_t\<close>: the
  extraction fails and writes nothing to \<^verbatim>\<open>uc\<close>, and its state is not tested. What the
  function returns is \<^verbatim>\<open>uc\<close> as it was declared; \<open>uc_unwritten\<close> stands for that value,
  of which nothing is known (one unknown value for each call, given by the digits read and
  the stream left).
\<close>

definition uc_unwritten :: "u32string \<Rightarrow> u32string \<Rightarrow> char32" where
  "uc_unwritten cs s = undefined cs s"

definition parse_hex :: "u32string \<Rightarrow> error + (char32 \<times> u32string)" where
  "parse_hex s =
     (case hex_loop 0 [] s of
        Inl e \<Rightarrow> Inl e
      | Inr (cs, s') \<Rightarrow> Inr (uc_unwritten cs s', s'))"

definition escape_char :: "u32string \<Rightarrow> error + (char32 \<times> u32string)" where
  "escape_char s =
     (case skip_char s 92 of
        Inl e \<Rightarrow> Inl e
      | Inr s1 \<Rightarrow>
          (case get s1 of
             (None, s2) \<Rightarrow> Inl BackslashInvalid
           | (Some c, s2) \<Rightarrow>
               if c = 34 then Inr (34, s2)
               else if c = 92 then Inr (92, s2)
               else if c = 47 then Inr (47, s2)
               else if c = 98 then Inr (8, s2)
               else if c = 102 then Inr (12, s2)
               else if c = 110 then Inr (10, s2)
               else if c = 114 then Inr (13, s2)
               else if c = 116 then Inr (9, s2)
               else if c = 117 then parse_hex s2
               else Inl BackslashInvalid))"

lemma skip_space_length: "length (skip_space s) \<le> length s"
  by (simp add: skip_space_def length_dropWhile_le)

lemma skip_char_length: "skip_char s c = Inr s' \<Longrightarrow> length s' < length s"
proof -
  assume a: "skip_char s c = Inr s'"
  then have "skip_space s = c # s'"
    by (auto simp: skip_char_def split: list.splits if_splits)
  then have "length s' < length (skip_space s)" by simp
  with skip_space_length [of s] show ?thesis by simp
qed

lemma get_length: "get s = (Some c, s') \<Longrightarrow> length s' < length s"
  by (auto simp: get_def split: list.splits)

lemma get_length_le: "get s = (x, s') \<Longrightarrow> length s' \<le> length s"
  by (auto simp: get_def split: list.splits)

lemma hex_loop_length: "hex_loop i cs s = Inr (cs', s') \<Longrightarrow> length s' \<le> length s"
proof (induction i cs s rule: hex_loop.induct)
  case (1 i cs s)
  show ?case
  proof (cases "i < 4")
    case False
    with "1.prems" show ?thesis by (simp add: hex_loop.simps)
  next
    case True
    show ?thesis
    proof (cases "get s")
      case (Pair x s1)
      show ?thesis
      proof (cases x)
        case None
        with True Pair "1.prems" show ?thesis by (simp add: hex_loop.simps)
      next
        case (Some c)
        with True Pair "1.prems" have "std_isxdigit c"
          by (auto simp: hex_loop.simps [of i] split: if_splits)
        with True Pair Some "1.prems" have "hex_loop (i + 1) (cs @ [c]) s1 = Inr (cs', s')"
          by (simp add: hex_loop.simps [of i])
        with "1.IH" [OF True Pair [symmetric] Some \<open>std_isxdigit c\<close>]
        have "length s' \<le> length s1" by simp
        with get_length_le [OF Pair] show ?thesis by simp
      qed
    qed
  qed
qed

lemma escape_char_length: "escape_char s = Inr (x, s') \<Longrightarrow> length s' < length s"
proof -
  assume a: "escape_char s = Inr (x, s')"
  then obtain s1 where s1: "skip_char s 92 = Inr s1"
    by (auto simp: escape_char_def split: sum.splits)
  obtain y s2 where g: "get s1 = (y, s2)" by (cases "get s1")
  from a s1 g obtain c where y: "y = Some c"
    by (cases y) (auto simp: escape_char_def)
  from a s1 g y have "length s' \<le> length s2"
    by (auto simp: escape_char_def parse_hex_def split: if_splits sum.splits
        dest: hex_loop_length)
  with get_length_le [OF g] skip_char_length [OF s1] show ?thesis by simp
qed

text \<open>
  The loop of \<^verbatim>\<open>parse_string\<close> and, statement for statement, of \<^verbatim>\<open>parse_member\<close>: until
  the end of the input or a quote, a backslash starts an escape and any other code point
  is taken as it is.
\<close>

function read_chars :: "u32string \<Rightarrow> u32string \<Rightarrow> error + (u32string \<times> u32string)" where
  "read_chars val s =
     (case peek s of
        None \<Rightarrow> Inr (val, s)
      | Some c \<Rightarrow>
          if c = 34 then Inr (val, s)
          else if c = 92 then
            (case escape_char s of
               Inl e \<Rightarrow> Inl e
             | Inr (x, s') \<Rightarrow> read_chars (val @ [x]) s')
          else read_chars (val @ [c]) (snd (get s)))"
  by pat_completeness auto
termination
proof (relation "measure (\<lambda>(val, s). length s)")
  show "wf (measure (\<lambda>(val, s). length s))" by simp
next
  fix val s c x xa y
  assume "escape_char s = Inr x" "(xa, y) = x"
  then show "((val @ [xa], y), val, s) \<in> measure (\<lambda>(val, s). length s)"
    using escape_char_length [of s xa y] by simp
next
  fix val s c
  assume "peek s = Some c"
  then show "((val @ [c], snd (get s)), val, s) \<in> measure (\<lambda>(val, s). length s)"
    by (auto simp: peek_def get_def split: list.splits)
qed

declare read_chars.simps [simp del]

definition parse_string :: "u32string \<Rightarrow> error + ('d json \<times> u32string)" where
  "parse_string s =
     (case skip_char s 34 of
        Inl e \<Rightarrow> Inl e
      | Inr s1 \<Rightarrow>
          (case read_chars [] s1 of
             Inl e \<Rightarrow> Inl e
           | Inr (val, s2) \<Rightarrow>
               (case skip_char s2 34 of
                  Inl e \<Rightarrow> Inl e
                | Inr s3 \<Rightarrow> Inr (JString (U32ToU8 val), s3))))"

definition parse_member :: "u32string \<Rightarrow> error + (u8string \<times> u32string)" where
  "parse_member s =
     (case skip_char s 34 of
        Inl e \<Rightarrow> Inl e
      | Inr s1 \<Rightarrow>
          (case read_chars [] s1 of
             Inl e \<Rightarrow> Inl e
           | Inr (returnVal, s2) \<Rightarrow>
               (case skip_char s2 34 of
                  Inl e \<Rightarrow> Inl e
                | Inr s3 \<Rightarrow> Inr (U32ToU8 returnVal, s3))))"

text \<open>
  The loops of \<^verbatim>\<open>parse_number\<close>, \<^verbatim>\<open>parse_bool\<close> and \<^verbatim>\<open>parse_null\<close>: the code points up to
  the next \<^verbatim>\<open>,\<close> \<^verbatim>\<open>]\<close> \<^verbatim>\<open>}\<close> or the end of the input, and the stream left.
\<close>

definition is_delimiter :: "char32 \<Rightarrow> bool" where
  "is_delimiter c \<longleftrightarrow> c = 44 \<or> c = 93 \<or> c = 125"

definition read_token :: "u32string \<Rightarrow> u32string \<times> u32string" where
  "read_token s = (takeWhile (\<lambda>c. \<not> is_delimiter c) s, dropWhile (\<lambda>c. \<not> is_delimiter c) s)"

definition parse_number :: "(u8string \<Rightarrow> 'd option) \<Rightarrow> u32string \<Rightarrow> error + ('d json \<times> u32string)" where
  "parse_number conv s =
     (case read_token s of
        (num_str, s') \<Rightarrow>
          (let nums = trim (U32ToU8 num_str)
           in if find_first_not_of nums (u32 ''0123456789-'') = None then
                (case to_integer nums of
                   Inl e \<Rightarrow> Inl e
                 | Inr n \<Rightarrow> Inr (JInteger n, s'))
              else
                (case to_double conv nums of
                   Inl e \<Rightarrow> Inl e
                 | Inr d \<Rightarrow> Inr (JDouble d, s'))))"

definition parse_bool :: "u32string \<Rightarrow> error + ('d json \<times> u32string)" where
  "parse_bool s =
     (case read_token s of
        (val_str, s') \<Rightarrow>
          (case to_bool (trim (U32ToU8 (map std_tolower val_str))) of
             Inl e \<Rightarrow> Inl e
           | Inr val_bool \<Rightarrow> Inr (JBoolean val_bool, s')))"

definition parse_null :: "u32string \<Rightarrow> error + ('d json \<times> u32string)" where
  "parse_null s =
     (case read_token s of
        (val_str, s') \<Rightarrow>
          if trim (U32ToU8 (map std_tolower val_str)) = u32 ''null'' then Inr (JNull, s')
          else Inl UnexpectedNullString)"

subsection \<open>Parser: values, objects and arrays\<close>

text \<open>
  \<^verbatim>\<open>parse_value\<close>, \<^verbatim>\<open>parse_object\<close> and \<^verbatim>\<open>parse_array\<close> call each other; \<open>object_loop\<close>
  is the \<^verbatim>\<open>while\<close> loop of \<^verbatim>\<open>parse_object\<close> from the test of its condition (the variable
  \<open>c\<close> always holds \<^verbatim>\<open>peek_next_non_space(strm)\<close> there), \<open>array_loop\<close> the
  \<^verbatim>\<open>do ... while\<close> loop of \<^verbatim>\<open>parse_array\<close> from the start of its body.

  A loop goes round again on the stream that \<^verbatim>\<open>parse_value\<close> left. The test
  \<open>length s' < length s\<close> before it states that this stream is shorter than the one the
  iteration started with, which is what makes the recursion well-founded; it always
  holds (\<open>parse_value_length\<close>), so the branch \<open>NoProgress\<close> is never taken
  (\<open>object_loop_unfold\<close>, \<open>array_loop_unfold\<close> give the loops without the test).
\<close>

function parse_value :: "(u8string \<Rightarrow> 'd option) \<Rightarrow> u32string \<Rightarrow> error + ('d json \<times> u32string)"
  and parse_object :: "(u8string \<Rightarrow> 'd option) \<Rightarrow> u32string \<Rightarrow> error + ('d json \<times> u32string)"
  and object_loop :: "(u8string \<Rightarrow> 'd option) \<Rightarrow> 'd json \<Rightarrow> u32string \<Rightarrow> error + ('d json \<times> u32string)"
  and parse_array :: "(u8string \<Rightarrow> 'd option) \<Rightarrow> u32string \<Rightarrow> error + ('d json \<times> u32string)"
  and array_loop :: "(u8string \<Rightarrow> 'd option) \<Rightarrow> 'd json_array \<Rightarrow> u32string \<Rightarrow> error + ('d json_array \<times> u32string)"
where
  "parse_value conv s =
     (case peek_next_non_space s of
        (None, s1) \<Rightarrow> Inl UnexpectedCharacter
      | (Some c, s1) \<Rightarrow>
          if c = 34 then parse_string s1
          else if c = 91 then parse_array conv s1
          else if isdigit c \<or> c = 45 \<or> c = 46 then parse_number conv s1
          else if c = 123 then parse_object conv s1
          else if c = 84 \<or> c = 116 \<or> c = 70 \<or> c = 102 then parse_bool s1
          else if c = 110 \<or> c = 78 then parse_null s1
          else Inl UnexpectedCharacter)"
| "parse_object conv s =
     (case skip_char s 123 of
        Inl e \<Rightarrow> Inl e
      | Inr s1 \<Rightarrow>
          (case object_loop conv (JObject []) s1 of
             Inl e \<Rightarrow> Inl e
           | Inr (return_val, s2) \<Rightarrow>
               (case skip_char s2 125 of
                  Inl e \<Rightarrow> Inl e
                | Inr s3 \<Rightarrow> Inr (return_val, s3))))"
| "object_loop conv return_val s =
     (case peek_next_non_space s of
        (None, s1) \<Rightarrow> Inr (return_val, s1)
      | (Some c, s1) \<Rightarrow>
          if c = 34 then
            (case parse_member s1 of
               Inl e \<Rightarrow> Inl e
             | Inr (member, s2) \<Rightarrow>
                 (case skip_char s2 58 of
                    Inl e \<Rightarrow> Inl e
                  | Inr s3 \<Rightarrow>
                      (case parse_value conv s3 of
                         Inl e \<Rightarrow> Inl e
                       | Inr (member_value, s4) \<Rightarrow>
                           (case add_member return_val member member_value of
                              Inl e \<Rightarrow> Inl e
                            | Inr return_val' \<Rightarrow>
                                if length s4 < length s then object_loop conv return_val' s4
                                else Inl NoProgress))))
          else if c = 125 then Inr (return_val, s1)
          else if c = 44 then object_loop conv return_val (snd (get_next_non_space s1))
          else Inl InvalidObjectFormat)"
| "parse_array conv s =
     (case skip_char s 91 of
        Inl e \<Rightarrow> Inl e
      | Inr s1 \<Rightarrow>
          (case peek_next_non_space s1 of
             (c, s2) \<Rightarrow>
               if c = Some 93 then
                 (case skip_char s2 93 of
                    Inl e \<Rightarrow> Inl e
                  | Inr s3 \<Rightarrow> Inr (JArray [], s3))
               else
                 (case array_loop conv [] s2 of
                    Inl e \<Rightarrow> Inl e
                  | Inr (vector_val, s3) \<Rightarrow>
                      (case skip_char s3 93 of
                         Inl e \<Rightarrow> Inl e
                       | Inr s4 \<Rightarrow> Inr (JArray vector_val, s4)))))"
| "array_loop conv vector_val s =
     (case parse_value conv s of
        Inl e \<Rightarrow> Inl e
      | Inr (elem, s1) \<Rightarrow>
          if length s1 < length s then
            (case peek_next_non_space s1 of
               (c, s2) \<Rightarrow>
                 if c = Some 44 then
                   (case skip_char s2 44 of
                      Inl e \<Rightarrow> Inl e
                    | Inr s3 \<Rightarrow> array_loop conv (vector_val @ [elem]) s3)
                 else if c = Some 93 then Inr (vector_val @ [elem], s2)
                 else if c \<noteq> None then array_loop conv (vector_val @ [elem]) s2
                 else Inr (vector_val @ [elem], s2))
          else Inl NoProgress)"
  by pat_completeness auto

lemma read_chars_length: "read_chars val s = Inr (val', s') \<Longrightarrow> length s' \<le> length s"
proof (induction val s rule: read_chars.induct)
  case (1 val s)
  show ?case
  proof (cases "peek s")
    case None
    with "1.prems" show ?thesis by (simp add: read_chars.simps [of val s])
  next
    case (Some c)
    show ?thesis
    proof (cases "c = 34")
      case True
      with Some "1.prems" show ?thesis by (simp add: read_chars.simps [of val s])
    next
      case n34: False
      show ?thesis
      proof (cases "c = 92")
        case True
        with Some n34 "1.prems" obtain x s1 where
          e: "escape_char s = Inr (x, s1)" and r: "read_chars (val @ [x]) s1 = Inr (val', s')"
          by (auto simp: read_chars.simps [of val s] split: sum.splits)
        from "1.IH"(1) [OF Some n34 True e refl r] escape_char_length [OF e]
        show ?thesis by simp
      next
        case False
        with Some n34 "1.prems" have r: "read_chars (val @ [c]) (snd (get s)) = Inr (val', s')"
          by (simp add: read_chars.simps [of val s])
        from "1.IH"(2) [OF Some n34 False r] get_length_le [of s "fst (get s)" "snd (get s)"]
        show ?thesis by simp
      qed
    qed
  qed
qed

lemma parse_member_length: "parse_member s = Inr (m, s') \<Longrightarrow> length s' < length s"
  by (auto simp: parse_member_def split: sum.splits
      dest!: skip_char_length read_chars_length)

lemma peek_next_non_space_length: "peek_next_non_space s = (c, s') \<Longrightarrow> length s' \<le> length s"
  using skip_space_length [of s] by (auto simp: peek_next_non_space_def)

lemma skip_space_idem: "skip_space (skip_space s) = skip_space s"
  by (simp add: skip_space_def)

lemma get_next_non_space_length:
  assumes "peek_next_non_space s = (Some c, s1)"
  shows "length (snd (get_next_non_space s1)) < length s"
proof -
  from assms have s1: "s1 = skip_space s" and "peek s1 = Some c"
    by (auto simp: peek_next_non_space_def)
  then obtain r where r: "s1 = c # r"
    by (auto simp: peek_def split: list.splits)
  from s1 have "skip_space s1 = s1" by (simp add: skip_space_idem)
  with r have "snd (get_next_non_space s1) = r"
    by (simp add: get_next_non_space_def get_def)
  with r s1 skip_space_length [of s] show ?thesis by simp
qed

termination parse_value
  apply (relation "measure (\<lambda>x. case x of
      Inl (Inl (conv, s)) \<Rightarrow> 3 * length s + 1
    | Inl (Inr (conv, s)) \<Rightarrow> 3 * length s
    | Inr (Inl (conv, v, s)) \<Rightarrow> 3 * length s + 2
    | Inr (Inr (Inl (conv, s))) \<Rightarrow> 3 * length s
    | Inr (Inr (Inr (conv, v, s))) \<Rightarrow> 3 * length s + 2)")
  apply simp_all
  subgoal for s x y x2
    using peek_next_non_space_length [of s x y] by simp
  subgoal for s x y x2
    using peek_next_non_space_length [of s x y] by simp
  subgoal for s b
    using skip_char_length [of s 123 b] by simp
  subgoal for s x y x2 b xa ya ba
    using peek_next_non_space_length [of s x y] parse_member_length [of y xa ya]
      skip_char_length [of ya 58 ba]
    by simp
  subgoal for s x y x2
    using get_next_non_space_length [of s 44 y] by simp
  subgoal for s b x y
    using skip_char_length [of s 91 b] peek_next_non_space_length [of b x y] by simp
  subgoal for conv s b x y xa ya ba
    using peek_next_non_space_length [of y xa ya] skip_char_length [of ya 44 ba] by simp
  subgoal for conv s b x y xa ya
    using peek_next_non_space_length [of y xa ya] by simp
  done

declare parse_value.simps [simp del] parse_object.simps [simp del] object_loop.simps [simp del]
  parse_array.simps [simp del] array_loop.simps [simp del]

lemma trim_Nil: "trim [] = []"
  by (simp add: trim_def find_first_not_of_def)

lemma trim_empty_imp: "trim s \<noteq> [] \<Longrightarrow> s \<noteq> []"
  by (auto simp: trim_Nil)

lemma to_integer_Nil: "to_integer [] = Inl StdInvalidArgument"
  by (simp add: to_integer_def stoll_def)

lemma to_double_Nil: "to_double conv [] = Inl StdInvalidArgument"
  by (simp add: to_double_def stod_def strtod_len_def hex_len_def decimal_len_def mantissa_len_def
      inf_len_def nan_len_def)

lemma to_bool_Nil: "to_bool [] = Inl InvalidBooleanString"
  by (simp add: to_bool_def u32_def)

lemma read_token_length:
  "read_token s = (tok, s') \<Longrightarrow> length s = length tok + length s'"
proof -
  assume "read_token s = (tok, s')"
  then have "tok @ s' = s" by (auto simp: read_token_def)
  then show ?thesis by (metis length_append)
qed

lemma parse_string_length: "parse_string s = Inr (v, s') \<Longrightarrow> length s' < length s"
  by (auto simp: parse_string_def split: sum.splits
      dest!: skip_char_length read_chars_length)

lemma parse_number_length:
  assumes "parse_number conv s = Inr (v, s')" shows "length s' < length s"
proof -
  obtain tok r where rt: "read_token s = (tok, r)" by (cases "read_token s")
  from assms rt have "trim (U32ToU8 tok) \<noteq> []" and "r = s'"
    by (auto simp: parse_number_def Let_def to_integer_Nil to_double_Nil
        split: if_splits sum.splits)
  then have "tok \<noteq> []" by (auto simp: U32ToU8_def trim_Nil)
  with read_token_length [OF rt] \<open>r = s'\<close> show ?thesis by (cases tok) auto
qed

lemma parse_bool_length:
  assumes "parse_bool s = Inr (v, s')" shows "length s' < length s"
proof -
  obtain tok r where rt: "read_token s = (tok, r)" by (cases "read_token s")
  from assms rt have "trim (U32ToU8 (map std_tolower tok)) \<noteq> []" and "r = s'"
    by (auto simp: parse_bool_def to_bool_Nil split: sum.splits)
  then have "tok \<noteq> []" by (auto simp: U32ToU8_def trim_Nil)
  with read_token_length [OF rt] \<open>r = s'\<close> show ?thesis by (cases tok) auto
qed

lemma parse_null_length:
  assumes "parse_null s = Inr (v, s')" shows "length s' < length s"
proof -
  obtain tok r where rt: "read_token s = (tok, r)" by (cases "read_token s")
  from assms rt have "trim (U32ToU8 (map std_tolower tok)) = u32 ''null''" and "r = s'"
    by (auto simp: parse_null_def split: if_splits)
  then have "tok \<noteq> []" by (auto simp: U32ToU8_def trim_Nil u32_def)
  with read_token_length [OF rt] \<open>r = s'\<close> show ?thesis by (cases tok) auto
qed

lemma parse_lengths:
  "parse_value conv s = Inr (v, s') \<Longrightarrow> length s' < length s"
  "parse_object conv s = Inr (v, s') \<Longrightarrow> length s' < length s"
  "object_loop conv rv s = Inr (v, s') \<Longrightarrow> length s' \<le> length s"
  "parse_array conv s = Inr (v, s') \<Longrightarrow> length s' < length s"
  "array_loop conv vec s = Inr (vec', s') \<Longrightarrow> length s' < length s"
proof (induction conv s and conv s and conv rv s and conv s and conv vec s
    arbitrary: v s' and v s' and v s' and v s' and vec' s'
    rule: parse_value_parse_object_object_loop_parse_array_array_loop.induct)
  case (1 conv s)
  obtain x s1 where p: "peek_next_non_space s = (x, s1)" by (cases "peek_next_non_space s")
  note le = peek_next_non_space_length [OF p]
  from "1.prems" p obtain c where x: "x = Some c"
    by (cases x) (auto simp: parse_value.simps [of conv s])
  from "1.prems" p x have
    "(c = 34 \<and> parse_string s1 = Inr (v, s')) \<or>
     (c \<noteq> 34 \<and> c = 91 \<and> parse_array conv s1 = Inr (v, s')) \<or>
     (parse_number conv s1 = Inr (v, s')) \<or>
     (c \<noteq> 34 \<and> c \<noteq> 91 \<and> \<not> (isdigit c \<or> c = 45 \<or> c = 46) \<and> c = 123
        \<and> parse_object conv s1 = Inr (v, s')) \<or>
     (parse_bool s1 = Inr (v, s')) \<or> (parse_null s1 = Inr (v, s'))"
    by (auto simp: parse_value.simps [of conv s] split: if_splits)
  then have "length s' < length s1"
    using "1.IH"(1) [OF p [symmetric] x] "1.IH"(2) [OF p [symmetric] x]
    by (auto dest: parse_string_length parse_number_length parse_bool_length parse_null_length)
  with le show ?case by simp
next
  case (2 conv s)
  from "2.prems" obtain s1 rv s2 where
    a: "skip_char s 123 = Inr s1" and b: "object_loop conv (JObject []) s1 = Inr (rv, s2)"
    and c: "skip_char s2 125 = Inr s'"
    by (auto simp: parse_object.simps [of conv s] split: sum.splits)
  from "2.IH" [OF a b] skip_char_length [OF a] skip_char_length [OF c]
  show ?case by simp
next
  case (3 conv rv s)
  obtain x s1 where p: "peek_next_non_space s = (x, s1)" by (cases "peek_next_non_space s")
  note le = peek_next_non_space_length [OF p]
  show ?case
  proof (cases x)
    case None
    with "3.prems" p le show ?thesis by (simp add: object_loop.simps [of conv rv s])
  next
    case (Some c)
    consider (quote) "c = 34" | (close) "c \<noteq> 34" "c = 125" | (comma) "c \<noteq> 34" "c \<noteq> 125" "c = 44"
      | (other) "c \<noteq> 34" "c \<noteq> 125" "c \<noteq> 44" by blast
    then show ?thesis
    proof cases
      case quote
      with "3.prems" p Some obtain m s2 s3 mv s4 rv' where
        a: "parse_member s1 = Inr (m, s2)" and b: "skip_char s2 58 = Inr s3"
        and c: "parse_value conv s3 = Inr (mv, s4)" and d: "add_member rv m mv = Inr rv'"
        and e: "length s4 < length s" and f: "object_loop conv rv' s4 = Inr (v, s')"
        by (auto simp: object_loop.simps [of conv rv s] split: sum.splits if_splits)
      from "3.IH"(2) [OF p [symmetric] Some quote a refl b c refl d e f] e
      show ?thesis by simp
    next
      case close
      with "3.prems" p Some le show ?thesis by (simp add: object_loop.simps [of conv rv s])
    next
      case comma
      with "3.prems" p Some have f: "object_loop conv rv (snd (get_next_non_space s1)) = Inr (v, s')"
        by (simp add: object_loop.simps [of conv rv s])
      from "3.IH"(3) [OF p [symmetric] Some comma f] get_next_non_space_length [of s c s1] p Some
      show ?thesis by simp
    next
      case other
      with "3.prems" p Some show ?thesis by (simp add: object_loop.simps [of conv rv s])
    qed
  qed
next
  case (4 conv s)
  from "4.prems" obtain s1 where a: "skip_char s 91 = Inr s1"
    by (auto simp: parse_array.simps [of conv s] split: sum.splits)
  obtain c s2 where p: "peek_next_non_space s1 = (c, s2)" by (cases "peek_next_non_space s1")
  note le = peek_next_non_space_length [OF p] skip_char_length [OF a]
  show ?case
  proof (cases "c = Some 93")
    case True
    with "4.prems" a p have "skip_char s2 93 = Inr s'"
      by (auto simp: parse_array.simps [of conv s] split: sum.splits)
    from skip_char_length [OF this] le show ?thesis by simp
  next
    case False
    with "4.prems" a p obtain vec s3 where
      b: "array_loop conv [] s2 = Inr (vec, s3)" and c: "skip_char s3 93 = Inr s'"
      by (auto simp: parse_array.simps [of conv s] split: sum.splits)
    from "4.IH" [OF a p [symmetric] False b] skip_char_length [OF c] le show ?thesis by simp
  qed
next
  case (5 conv vec s)
  from "5.prems" obtain e s1 where a: "parse_value conv s = Inr (e, s1)" and l: "length s1 < length s"
    by (auto simp: array_loop.simps [of conv vec s] split: sum.splits if_splits)
  obtain c s2 where p: "peek_next_non_space s1 = (c, s2)" by (cases "peek_next_non_space s1")
  note le = peek_next_non_space_length [OF p]
  consider (comma) "c = Some 44" | (close) "c \<noteq> Some 44" "c = Some 93"
    | (other) "c \<noteq> Some 44" "c \<noteq> Some 93" "c \<noteq> None" | (eof) "c \<noteq> Some 44" "c \<noteq> Some 93" "c = None"
    by blast
  then show ?case
  proof cases
    case comma
    with "5.prems" a l p obtain s3 where b: "skip_char s2 44 = Inr s3"
      and f: "array_loop conv (vec @ [e]) s3 = Inr (vec', s')"
      by (auto simp: array_loop.simps [of conv vec s] split: sum.splits)
    from "5.IH"(2) [OF a refl l p [symmetric] comma b f] skip_char_length [OF b] le l
    show ?thesis by simp
  next
    case close
    with "5.prems" a l p le show ?thesis by (auto simp: array_loop.simps [of conv vec s])
  next
    case other
    with "5.prems" a l p have f: "array_loop conv (vec @ [e]) s2 = Inr (vec', s')"
      by (auto simp: array_loop.simps [of conv vec s])
    from "5.IH"(3) [OF a refl l p [symmetric] other f] le l show ?thesis by simp
  next
    case eof
    with "5.prems" a l p le show ?thesis by (auto simp: array_loop.simps [of conv vec s])
  qed
qed

text \<open>The loops as the source has them, without the test on the lengths.\<close>

lemma object_loop_unfold:
  "object_loop conv return_val s =
     (case peek_next_non_space s of
        (None, s1) \<Rightarrow> Inr (return_val, s1)
      | (Some c, s1) \<Rightarrow>
          if c = 34 then
            (case parse_member s1 of
               Inl e \<Rightarrow> Inl e
             | Inr (member, s2) \<Rightarrow>
                 (case skip_char s2 58 of
                    Inl e \<Rightarrow> Inl e
                  | Inr s3 \<Rightarrow>
                      (case parse_value conv s3 of
                         Inl e \<Rightarrow> Inl e
                       | Inr (member_value, s4) \<Rightarrow>
                           (case add_member return_val member member_value of
                              Inl e \<Rightarrow> Inl e
                            | Inr return_val' \<Rightarrow> object_loop conv return_val' s4))))
          else if c = 125 then Inr (return_val, s1)
          else if c = 44 then object_loop conv return_val (snd (get_next_non_space s1))
          else Inl InvalidObjectFormat)"
proof -
  have "length s4 < length s"
    if "peek_next_non_space s = (Some c, s1)" "parse_member s1 = Inr (m, s2)"
      "skip_char s2 58 = Inr s3" "parse_value conv s3 = Inr (mv, s4)" for c s1 m s2 s3 mv s4
    using peek_next_non_space_length [OF that(1)] parse_member_length [OF that(2)]
      skip_char_length [OF that(3)] parse_lengths(1) [OF that(4)]
    by simp
  then show ?thesis
    by (subst object_loop.simps) (auto split: prod.splits option.splits sum.splits)
qed

lemma array_loop_unfold:
  "array_loop conv vector_val s =
     (case parse_value conv s of
        Inl e \<Rightarrow> Inl e
      | Inr (elem, s1) \<Rightarrow>
          (case peek_next_non_space s1 of
             (c, s2) \<Rightarrow>
               if c = Some 44 then
                 (case skip_char s2 44 of
                    Inl e \<Rightarrow> Inl e
                  | Inr s3 \<Rightarrow> array_loop conv (vector_val @ [elem]) s3)
               else if c = Some 93 then Inr (vector_val @ [elem], s2)
               else if c \<noteq> None then array_loop conv (vector_val @ [elem]) s2
               else Inr (vector_val @ [elem], s2)))"
  by (subst array_loop.simps) (auto split: prod.splits sum.splits dest: parse_lengths(1))


text \<open>
  \<^verbatim>\<open>parse(const char *s)\<close>: the argument is read as a C string, so the stream holds the
  characters before the first NUL.
\<close>

definition c_str :: "u8string \<Rightarrow> u8string" where
  "c_str s = takeWhile (\<lambda>c. c \<noteq> 0) s"

definition parse :: "(u8string \<Rightarrow> 'd option) \<Rightarrow> u8string \<Rightarrow> error + 'd json" where
  "parse conv s =
     (case peek_next_non_space (U8ToU32 (c_str s)) of
        (first_char, strm) \<Rightarrow>
          (case (if first_char = Some 123 then parse_object conv strm
                 else if first_char = Some 91 then parse_array conv strm
                 else Inl InvalidJsonFormat) of
             Inl e \<Rightarrow> Inl e
           | Inr (ret_val, strm') \<Rightarrow>
               if fst (peek_next_non_space strm') \<noteq> None then Inl InvalidJsonFormat
               else Inr ret_val))"

subsection \<open>Serializer\<close>

text \<open>\<^verbatim>\<open>std::to_string(long long)\<close>: the decimal digits, after a minus sign when negative.\<close>

fun digits_of :: "nat \<Rightarrow> u8string" where
  "digits_of n = (if n < 10 then [48 + n] else digits_of (n div 10) @ [48 + n mod 10])"

declare digits_of.simps [simp del]

definition to_string_ll :: "64 word \<Rightarrow> u8string" where
  "to_string_ll n =
     (if sint n < 0 then 45 # digits_of (nat (- sint n)) else digits_of (nat (sint n)))"

lemma get_object_JObject [simp]: "get_object (JObject m) = Inr m"
  by (simp add: get_object_def CHECK_TYPE_MISMATCH_def)

lemma get_array_JArray [simp]: "get_array (JArray xs) = Inr xs"
  by (simp add: get_array_def CHECK_TYPE_MISMATCH_def)

text \<open>
  \<^verbatim>\<open>to_string\<close> switches on \<^verbatim>\<open>type()\<close>: one equation per tag. \<open>members_to_string\<close> and
  \<open>elements_to_string\<close> are the loops of \<^verbatim>\<open>object_to_string\<close> and \<^verbatim>\<open>array_to_string\<close>
  over the entries in iteration order; a key and the text of a nested value go to the
  output through \<^verbatim>\<open>c_str()\<close>.
\<close>

fun to_string :: "('d \<Rightarrow> u8string) \<Rightarrow> 'd json \<Rightarrow> error + u8string"
  and members_to_string :: "('d \<Rightarrow> u8string) \<Rightarrow> 'd json_object \<Rightarrow> error + u8string"
  and elements_to_string :: "('d \<Rightarrow> u8string) \<Rightarrow> 'd json_array \<Rightarrow> error + u8string"
where
  "to_string fmt (JObject m) =
     (case get_object (JObject m) of
        Inl e \<Rightarrow> Inl e
      | Inr jobj \<Rightarrow>
          (case members_to_string fmt jobj of
             Inl e \<Rightarrow> Inl e
           | Inr ss \<Rightarrow> Inr ([123] @ ss @ [125])))"
| "to_string fmt (JArray xs) =
     (case get_array (JArray xs) of
        Inl e \<Rightarrow> Inl e
      | Inr jarray \<Rightarrow>
          (case elements_to_string fmt jarray of
             Inl e \<Rightarrow> Inl e
           | Inr ss \<Rightarrow> Inr ([91] @ ss @ [93])))"
| "to_string fmt (JString s) =
     (case get_string (JString s :: 'd json) of
        Inl e \<Rightarrow> Inl e
      | Inr str \<Rightarrow> Inr ([34] @ str @ [34]))"
| "to_string fmt (JInteger n) =
     (case get_integer (JInteger n :: 'd json) of
        Inl e \<Rightarrow> Inl e
      | Inr i \<Rightarrow> Inr (to_string_ll i))"
| "to_string fmt (JDouble d) =
     (case get_double (JDouble d) of
        Inl e \<Rightarrow> Inl e
      | Inr x \<Rightarrow> Inr (fmt x))"
| "to_string fmt (JBoolean b) =
     (case get_bool (JBoolean b :: 'd json) of
        Inl e \<Rightarrow> Inl e
      | Inr x \<Rightarrow> Inr (if x then u32 ''true'' else u32 ''false''))"
| "to_string fmt JNull = Inr (u32 ''null'')"
| "to_string fmt JInvalid = Inl InvalidJsonType"
| "members_to_string fmt [] = Inr []"
| "members_to_string fmt ((k, v) # rest) =
     (case to_string fmt v of
        Inl e \<Rightarrow> Inl e
      | Inr vs \<Rightarrow>
          (case members_to_string fmt rest of
             Inl e \<Rightarrow> Inl e
           | Inr ss \<Rightarrow>
               Inr ([34] @ c_str k @ [34] @ u32 '' : '' @ c_str vs
                    @ (if rest \<noteq> [] then [44] else []) @ ss)))"
| "elements_to_string fmt [] = Inr []"
| "elements_to_string fmt (v # rest) =
     (case to_string fmt v of
        Inl e \<Rightarrow> Inl e
      | Inr vs \<Rightarrow>
          (case elements_to_string fmt rest of
             Inl e \<Rightarrow> Inl e
           | Inr ss \<Rightarrow> Inr (c_str vs @ (if rest \<noteq> [] then [44] else []) @ ss)))"

subsection \<open>Equality\<close>


subsection \<open>Library routines for the examples\<close>

text \<open>
  The number routines of the C++ library are parameters of the model: \<open>conv\<close> is the
  value \<^verbatim>\<open>std::stod\<close> gives to the characters it consumed, \<open>fmt\<close> is
  \<^verbatim>\<open>std::to_string(double)\<close>. Where an example only needs to tell which characters of a
  token are converted, a \<^verbatim>\<open>double\<close> is written as the numeral it was read from
  (\<open>numeral_conv\<close>); no numeral of these examples is out of the range of \<^verbatim>\<open>double\<close>.
\<close>

definition numeral_conv :: "u8string \<Rightarrow> u8string option" where
  "numeral_conv t = Some t"

text \<open>
  The examples that print a \<^verbatim>\<open>double\<close> use four of them, with what the library does at
  each. \<^verbatim>\<open>std::to_string\<close> prints with \<^verbatim>\<open>"%f"\<close>, six digits after the point: 1.5 as
  \<^verbatim>\<open>1.500000\<close>, which \<^verbatim>\<open>std::stod\<close> reads as 1.5; 0.1234567 as \<^verbatim>\<open>0.123457\<close>, which
  \<^verbatim>\<open>std::stod\<close> reads as 0.123457, another \<^verbatim>\<open>double\<close>; and plus infinity as \<^verbatim>\<open>inf\<close>, which
  \<^verbatim>\<open>std::stod\<close> reads as plus infinity. \<open>example_conv\<close> has a value for these three texts
  only; the examples convert no other.
\<close>

datatype example_double = D_1_5 | D_0_1234567 | D_0_123457 | D_infinity

fun example_fmt :: "example_double \<Rightarrow> u8string" where
  "example_fmt D_1_5 = u32 ''1.500000''"
| "example_fmt D_0_1234567 = u32 ''0.123457''"
| "example_fmt D_0_123457 = u32 ''0.123457''"
| "example_fmt D_infinity = u32 ''inf''"

definition example_conv :: "u8string \<Rightarrow> example_double option" where
  "example_conv t =
     (if t = u32 ''1.500000'' then Some D_1_5
      else if t = u32 ''0.123457'' then Some D_0_123457
      else if t = u32 ''inf'' then Some D_infinity
      else None)"

subsection \<open>Predicates of the statements\<close>

text \<open>A tree none of whose nodes has the tag \<^verbatim>\<open>invalid\<close>.\<close>

fun kinds_valid :: "'d json \<Rightarrow> bool" where
  "kinds_valid (JArray xs) = list_all kinds_valid xs"
| "kinds_valid (JObject m) = list_all (\<lambda>kv. kinds_valid (snd kv)) m"
| "kinds_valid JInvalid = False"
| "kinds_valid v = True"

text \<open>The code points on which \<^verbatim>\<open>parse_value\<close> dispatches to a production.\<close>

definition value_start :: "char32 \<Rightarrow> bool" where
  "value_start c \<longleftrightarrow>
     c = 34 \<or> c = 91 \<or> isdigit c \<or> c = 45 \<or> c = 46 \<or> c = 123 \<or> c = 84 \<or> c = 116 \<or>
     c = 70 \<or> c = 102 \<or> c = 110 \<or> c = 78"

text \<open>A sequence of \<^verbatim>\<open>add_member\<close> calls on one object, in the order of the list.\<close>

definition add_members :: "'d json \<Rightarrow> (u8string \<times> 'd json) list \<Rightarrow> error + 'd json" where
  "add_members obj kvs =
     foldl (\<lambda>r (k, v). case r of Inl e \<Rightarrow> Inl e | Inr this \<Rightarrow> add_member this k v) (Inr obj) kvs"

text \<open>
  The test of \<^verbatim>\<open>parse_number\<close> on the trimmed token: every character is a digit or
  \<^verbatim>\<open>-\<close>.
\<close>

definition integer_token :: "u8string \<Rightarrow> bool" where
  "integer_token nums \<longleftrightarrow> (\<forall>c\<in>set nums. isdigit c \<or> c = 45)"

text \<open>The first \<open>n\<close> characters of \<open>s\<close> exist and none of them is a space.\<close>

definition nonspace_prefix :: "nat \<Rightarrow> u8string \<Rightarrow> bool" where
  "nonspace_prefix n s \<longleftrightarrow> n \<le> length s \<and> (\<forall>c\<in>set (take n s). \<not> isspace c)"

text \<open>The length of the optional sign at the start of a numeral: 0 or 1.\<close>

definition sign_len :: "u8string \<Rightarrow> nat" where
  "sign_len s = (case s of [] \<Rightarrow> 0 | c # r \<Rightarrow> if c = 45 \<or> c = 43 then 1 else 0)"

text \<open>
  The invariant of \<^verbatim>\<open>std::map\<close> at every object of a tree: the entries are in strictly
  increasing key order.
\<close>

fun wf_json :: "'d json \<Rightarrow> bool" where
  "wf_json (JObject m) \<longleftrightarrow> map_wf m \<and> list_all (\<lambda>kv. wf_json (snd kv)) m"
| "wf_json (JArray xs) \<longleftrightarrow> list_all wf_json xs"
| "wf_json v \<longleftrightarrow> True"

text \<open>The texts of a list, with \<open>sep\<close> between two neighbours.\<close>

fun join :: "u8string \<Rightarrow> u8string list \<Rightarrow> u8string" where
  "join sep [] = []"
| "join sep [x] = x"
| "join sep (x # y # r) = x @ sep @ join sep (y # r)"

text \<open>The text of one member as \<^verbatim>\<open>object_to_string\<close> writes it: key, colon, value.\<close>

definition entry_text :: "u8string \<Rightarrow> u8string \<Rightarrow> u8string" where
  "entry_text k t = [34] @ c_str k @ [34] @ u32 '' : '' @ c_str t"







text \<open>
  What the round trip needs of a nested value, of the members of an object and of the
  elements of an array: the serializer returns a text without NUL, and the parser, started
  at that text and followed by a delimiter or the end of the input, returns the value and
  stops right after the text. For members the object under construction is \<open>acc\<close> and
  the loop stops before the closing brace; for elements the vector under construction is
  \<open>acc\<close> and the loop stops before the closing bracket.
\<close>

definition value_rt :: "(u8string \<Rightarrow> 'd option) \<Rightarrow> ('d \<Rightarrow> u8string) \<Rightarrow> 'd json \<Rightarrow> bool" where
  "value_rt conv fmt v \<longleftrightarrow>
     (\<exists>t. to_string fmt v = Inr t \<and> t \<noteq> [] \<and> value_start (hd t) \<and> 0 \<notin> set t \<and>
        (\<forall>r. r = [] \<or> is_delimiter (hd r) \<longrightarrow> parse_value conv (t @ r) = Inr (v, r)))"



section \<open>Properties\<close>

lemma u32_Nil: "u32 [] = []"
  by (simp add: u32_def)

subsection \<open>Typed getters\<close>

text \<open>
  C8. For every value and every typed getter (\<^verbatim>\<open>get_string\<close>, \<^verbatim>\<open>get_integer\<close>,
  \<^verbatim>\<open>get_double\<close>, \<^verbatim>\<open>get_bool\<close>, \<^verbatim>\<open>get_object\<close>, \<^verbatim>\<open>get_array\<close>, \<^verbatim>\<open>get_null\<close>): when the
  kind of the value is not the kind the getter expects, the call fails with the type
  mismatch error, which carries the kind of the value and the expected kind, and no
  default value is returned; when the kind matches, the payload is returned. In
  particular \<^verbatim>\<open>get_bool\<close> fails on a value of kind String. (The error holds the two kinds
  in the order of the macro's arguments: the kind of the value first.)
\<close>

theorem typed_getters_check_kind:
  fixes v :: "'d json"
  shows
  "(json_type v \<noteq> string_t \<longrightarrow> get_string v = Inl (TypeMismatch (json_type v) string_t)) \<and>
   (json_type v = string_t \<longrightarrow> v = JString (string_val v) \<and> get_string v = Inr (string_val v)) \<and>
   (json_type v \<noteq> number_integer_t \<longrightarrow>
      get_integer v = Inl (TypeMismatch (json_type v) number_integer_t)) \<and>
   (json_type v = number_integer_t \<longrightarrow>
      v = JInteger (integer_val v) \<and> get_integer v = Inr (integer_val v)) \<and>
   (json_type v \<noteq> number_double_t \<longrightarrow>
      get_double v = Inl (TypeMismatch (json_type v) number_double_t)) \<and>
   (json_type v = number_double_t \<longrightarrow>
      v = JDouble (double_val v) \<and> get_double v = Inr (double_val v)) \<and>
   (json_type v \<noteq> boolean_t \<longrightarrow> get_bool v = Inl (TypeMismatch (json_type v) boolean_t)) \<and>
   (json_type v = boolean_t \<longrightarrow> v = JBoolean (bool_val v) \<and> get_bool v = Inr (bool_val v)) \<and>
   (json_type v \<noteq> object_t \<longrightarrow> get_object v = Inl (TypeMismatch (json_type v) object_t)) \<and>
   (json_type v = object_t \<longrightarrow> v = JObject (object_val v) \<and> get_object v = Inr (object_val v)) \<and>
   (json_type v \<noteq> array_t \<longrightarrow> get_array v = Inl (TypeMismatch (json_type v) array_t)) \<and>
   (json_type v = array_t \<longrightarrow> v = JArray (array_val v) \<and> get_array v = Inr (array_val v)) \<and>
   (json_type v \<noteq> null_t \<longrightarrow> get_null v = Inl (TypeMismatch (json_type v) null_t)) \<and>
   (json_type v = null_t \<longrightarrow> v = JNull \<and> get_null v = Inr ()) \<and>
   get_bool (JString s :: 'd json) = Inl (TypeMismatch string_t boolean_t)"
  by (cases v)
    (simp_all add: get_string_def get_integer_def get_double_def get_bool_def get_object_def
      get_array_def get_null_def CHECK_TYPE_MISMATCH_def)

theorem typed_getters_check_kind_witness:
  "get_bool (JString (u32 ''yes'') :: unit json) = Inl (TypeMismatch string_t boolean_t) \<and>
   get_string (JString (u32 ''yes'') :: unit json) = Inr (u32 ''yes'') \<and>
   get_integer (JString (u32 ''yes'') :: unit json) = Inl (TypeMismatch string_t number_integer_t) \<and>
   get_integer (JInteger 7 :: unit json) = Inr 7 \<and>
   get_string (JInteger 7 :: unit json) = Inl (TypeMismatch number_integer_t string_t) \<and>
   get_double (JDouble () :: unit json) = Inr () \<and>
   get_double (JNull :: unit json) = Inl (TypeMismatch null_t number_double_t) \<and>
   get_bool (JBoolean True :: unit json) = Inr True \<and>
   get_object (JObject [(u32 ''k'', JNull)] :: unit json) = Inr [(u32 ''k'', JNull)] \<and>
   get_object (JArray [] :: unit json) = Inl (TypeMismatch array_t object_t) \<and>
   get_array (JArray [JNull] :: unit json) = Inr [JNull] \<and>
   get_array (JObject [] :: unit json) = Inl (TypeMismatch object_t array_t) \<and>
   get_null (JNull :: unit json) = Inr () \<and>
   get_null (JBoolean False :: unit json) = Inl (TypeMismatch boolean_t null_t)"
  using typed_getters_check_kind [of "JString (u32 ''yes'') :: unit json"]
    typed_getters_check_kind [of "JInteger 7 :: unit json"]
    typed_getters_check_kind [of "JDouble () :: unit json"]
    typed_getters_check_kind [of "JNull :: unit json"]
    typed_getters_check_kind [of "JBoolean True :: unit json"]
    typed_getters_check_kind [of "JBoolean False :: unit json"]
    typed_getters_check_kind [of "JObject [(u32 ''k'', JNull)] :: unit json"]
    typed_getters_check_kind [of "JArray [] :: unit json"]
    typed_getters_check_kind [of "JArray [JNull] :: unit json"]
    typed_getters_check_kind [of "JObject [] :: unit json"]
  by simp

subsection \<open>Serialization never fails on valid kinds\<close>

lemma to_string_total_aux:
  "(kinds_valid v \<longrightarrow> (\<exists>s. to_string fmt v = Inr s)) \<and>
   (\<not> kinds_valid v \<longrightarrow> to_string fmt v = Inl InvalidJsonType)"
  "(list_all (\<lambda>kv. kinds_valid (snd kv)) m \<longrightarrow> (\<exists>s. members_to_string fmt m = Inr s)) \<and>
   (\<not> list_all (\<lambda>kv. kinds_valid (snd kv)) m \<longrightarrow> members_to_string fmt m = Inl InvalidJsonType)"
  "(list_all kinds_valid xs \<longrightarrow> (\<exists>s. elements_to_string fmt xs = Inr s)) \<and>
   (\<not> list_all kinds_valid xs \<longrightarrow> elements_to_string fmt xs = Inl InvalidJsonType)"
proof (induction fmt v and fmt m and fmt xs rule: to_string_members_to_string_elements_to_string.induct)
  case (10 fmt k v rest)
  then show ?case by (cases "kinds_valid v"; cases "list_all (\<lambda>kv. kinds_valid (snd kv)) rest") auto
next
  case (12 fmt v rest)
  then show ?case by (cases "kinds_valid v"; cases "list_all kinds_valid rest") auto
qed (auto simp: get_string_def get_integer_def get_double_def get_bool_def CHECK_TYPE_MISMATCH_def)

text \<open>
  C9. For every value all of whose nodes have one of the kinds String, IntegerNumber,
  DoubleNumber, Array, Boolean, Object and Null, \<^verbatim>\<open>to_string\<close> returns a text; when
  \<^verbatim>\<open>to_string\<close> fails, the error is the one of its \<^verbatim>\<open>default\<close> branch and some node of the
  tree has the kind Invalid.
\<close>

theorem to_string_succeeds_unless_invalid:
  "(kinds_valid v \<longrightarrow> (\<exists>s. to_string fmt v = Inr s)) \<and>
   (\<forall>e. to_string fmt v = Inl e \<longrightarrow> e = InvalidJsonType \<and> \<not> kinds_valid v)"
  using to_string_total_aux(1) [of v fmt] by (cases "kinds_valid v") auto

theorem to_string_succeeds_unless_invalid_witness:
  "kinds_valid (JObject [(u32 ''a'', JArray [JInteger 5, JNull, JBoolean True, JString (u32 ''x'')])] :: unit json) \<and>
   (\<exists>s. to_string (\<lambda>d. u32 ''0.000000'') (JObject [(u32 ''a'', JArray [JInteger 5, JNull, JBoolean True, JString (u32 ''x'')])] :: unit json) = Inr s) \<and>
   to_string (\<lambda>d. u32 ''0.000000'') (JArray [JInvalid] :: unit json) = Inl InvalidJsonType \<and>
   \<not> kinds_valid (JArray [JInvalid] :: unit json)"
  using to_string_succeeds_unless_invalid [of "JObject [(u32 ''a'', JArray [JInteger 5, JNull, JBoolean True, JString (u32 ''x'')])] :: unit json" "\<lambda>d. u32 ''0.000000''"]
    to_string_succeeds_unless_invalid [of "JArray [JInvalid] :: unit json" "\<lambda>d. u32 ''0.000000''"]
  by (simp add: get_array_def CHECK_TYPE_MISMATCH_def)

subsection \<open>Escapes\<close>

lemma hex_loop_result:
  "i \<le> 4 \<Longrightarrow> hex_loop i cs s =
     (if 4 - i \<le> length s \<and> list_all std_isxdigit (take (4 - i) s)
      then Inr (cs @ take (4 - i) s, drop (4 - i) s) else Inl NotHexNumber)"
proof (induction i cs s rule: hex_loop.induct)
  case (1 i cs s)
  show ?case
  proof (cases "i < 4")
    case False
    with "1.prems" have "i = 4" by simp
    then show ?thesis by (simp add: hex_loop.simps [of 4])
  next
    case True
    define k where "k = 3 - i"
    from True have k: "4 - i = Suc k" and k': "4 - (i + 1) = k" by (simp_all add: k_def)
    show ?thesis
    proof (cases s)
      case Nil
      with True k show ?thesis by (simp add: hex_loop.simps [of i] get_def)
    next
      case (Cons c r)
      show ?thesis
      proof (cases "std_isxdigit c")
        case False
        with True k Cons show ?thesis by (simp add: hex_loop.simps [of i] get_def)
      next
        case x: True
        have g: "get s = (Some c, r)" by (simp add: Cons get_def)
        from "1.IH" [OF True g [symmetric] refl x] True
        have "hex_loop (i + 1) (cs @ [c]) r =
          (if k \<le> length r \<and> list_all std_isxdigit (take k r)
           then Inr ((cs @ [c]) @ take k r, drop k r) else Inl NotHexNumber)"
          unfolding k' by simp
        with True k Cons x show ?thesis by (simp add: hex_loop.simps [of i] get_def)
      qed
    qed
  qed
qed

lemma parse_hex_result:
  "parse_hex s =
     (if 4 \<le> length s \<and> list_all std_isxdigit (take 4 s)
      then Inr (uc_unwritten (take 4 s) (drop 4 s), drop 4 s) else Inl NotHexNumber)"
  by (simp add: parse_hex_def hex_loop_result [of 0, simplified])

lemma skip_char_Cons: "\<not> std_isspace c \<Longrightarrow> skip_char (c # r) e = (if c \<noteq> e then Inl (ExpectedCharNotFound e) else Inr r)"
  by (simp add: skip_char_def skip_space_def)

lemma escape_char_Cons:
  "escape_char (92 # c # r) =
     (if c = 34 then Inr (34, r)
      else if c = 92 then Inr (92, r)
      else if c = 47 then Inr (47, r)
      else if c = 98 then Inr (8, r)
      else if c = 102 then Inr (12, r)
      else if c = 110 then Inr (10, r)
      else if c = 114 then Inr (13, r)
      else if c = 116 then Inr (9, r)
      else if c = 117 then parse_hex r
      else Inl BackslashInvalid)"
  by (simp add: escape_char_def skip_char_Cons std_isspace_def isspace_def get_def)

lemma escape_char_eof: "escape_char [92] = Inl BackslashInvalid"
  by (simp add: escape_char_def skip_char_Cons std_isspace_def isspace_def get_def)

lemma read_chars_Nil: "read_chars val [] = Inr (val, [])"
  by (simp add: read_chars.simps [of val "[]"] peek_def)

lemma read_chars_Cons:
  "read_chars val (c # r) =
     (if c = 34 then Inr (val, c # r)
      else if c = 92 then
        (case escape_char (c # r) of Inl e \<Rightarrow> Inl e | Inr (x, s') \<Rightarrow> read_chars (val @ [x]) s')
      else read_chars (val @ [c]) r)"
  by (simp add: read_chars.simps [of val "c # r"] peek_def get_def)



subsection \<open>Evaluation on concrete inputs\<close>

lemmas cursor_eval = u32_def U32ToU8_def U8ToU32_def c_str_def std_isspace_def isspace_def isdigit_def
  std_isxdigit_def isxdigit_def isalnum_def std_tolower_def tolower_def peek_def get_def skip_space_def get_next_non_space_def
  peek_next_non_space_def skip_char_def is_delimiter_def read_token_def

lemmas number_eval = find_first_not_of_def find_last_not_of_def substr_def whitespace_def
  trim_def digit_val_def digits_value_def stoll_def exponent_len_def mantissa_len_def
  decimal_len_def hex_len_def inf_len_def nan_len_def strtod_len_def stod_def to_integer_def
  to_double_def to_bool_def Let_def

lemmas parse_eval = cursor_eval number_eval CHECK_TYPE_MISMATCH_def add_member_def
  read_chars_Nil read_chars_Cons escape_char_Cons escape_char_eof parse_hex_result
  parse_string_def parse_member_def parse_number_def parse_bool_def parse_null_def
  parse_value.simps parse_object.simps object_loop_unfold parse_array.simps array_loop_unfold
  parse_def

subsection \<open>The document root and trailing content\<close>

lemma skip_space_Nil_iff: "skip_space s = [] \<longleftrightarrow> (\<forall>c\<in>set s. std_isspace c)"
  by (simp add: skip_space_def dropWhile_eq_Nil_conv)

lemma peek_None_iff: "peek s = None \<longleftrightarrow> s = []"
  by (cases s) (simp_all add: peek_def)

text \<open>
  C1. For every input text, \<^verbatim>\<open>parse\<close> fails with "invalid json format" unless the first
  code point that is no space is \<^verbatim>\<open>{\<close> or \<^verbatim>\<open>[\<close> (an input with no such code point
  included). When the root object or array has been parsed and \<open>rest\<close> is the input left,
  \<^verbatim>\<open>parse\<close> returns the root if \<open>rest\<close> holds spaces only and fails with "invalid json
  format" otherwise: \<^verbatim>\<open>parse("{} garbage")\<close> fails, \<^verbatim>\<open>parse("{}   ")\<close> succeeds. A space
  is a code point that \<^verbatim>\<open>std::isspace\<close> accepts when \<^verbatim>\<open>skip_space\<close> calls it
  (\<open>std_isspace\<close>); the statement holds whatever the call returns above 255.
\<close>

theorem parse_root_and_trailing:
  "(peek (skip_space (c_str s)) \<noteq> Some 123 \<and> peek (skip_space (c_str s)) \<noteq> Some 91 \<longrightarrow>
      parse conv s = Inl InvalidJsonFormat) \<and>
   (peek (skip_space (c_str s)) = Some 123 \<and>
    parse_object conv (skip_space (c_str s)) = Inr (v, rest) \<longrightarrow>
      parse conv s = (if \<forall>c\<in>set rest. std_isspace c then Inr v else Inl InvalidJsonFormat)) \<and>
   (peek (skip_space (c_str s)) = Some 91 \<and>
    parse_array conv (skip_space (c_str s)) = Inr (v, rest) \<longrightarrow>
      parse conv s = (if \<forall>c\<in>set rest. std_isspace c then Inr v else Inl InvalidJsonFormat)) \<and>
   parse conv (u32 ''{} garbage'') = Inl InvalidJsonFormat \<and>
   parse conv (u32 ''{}   '') = Inr (JObject [])"
proof -
  have root: "peek (skip_space (c_str s)) \<noteq> Some 123 \<and> peek (skip_space (c_str s)) \<noteq> Some 91 \<longrightarrow>
      parse conv s = Inl InvalidJsonFormat"
    by (simp add: parse_def peek_next_non_space_def U8ToU32_def)
  have obj: "peek (skip_space (c_str s)) = Some 123 \<and>
    parse_object conv (skip_space (c_str s)) = Inr (v, rest) \<longrightarrow>
      parse conv s = (if \<forall>c\<in>set rest. std_isspace c then Inr v else Inl InvalidJsonFormat)"
    by (simp add: parse_def peek_next_non_space_def U8ToU32_def peek_None_iff skip_space_Nil_iff)
  have arr: "peek (skip_space (c_str s)) = Some 91 \<and>
    parse_array conv (skip_space (c_str s)) = Inr (v, rest) \<longrightarrow>
      parse conv s = (if \<forall>c\<in>set rest. std_isspace c then Inr v else Inl InvalidJsonFormat)"
    by (simp add: parse_def peek_next_non_space_def U8ToU32_def peek_None_iff skip_space_Nil_iff)
  have ex1: "parse conv (u32 ''{} garbage'') = Inl InvalidJsonFormat"
    by (simp add: parse_eval)
  have ex2: "parse conv (u32 ''{}   '') = Inr (JObject [])"
    by (simp add: parse_eval)
  show ?thesis by (intro conjI) (fact root obj arr ex1 ex2)+
qed

theorem parse_root_and_trailing_witness:
  "parse (\<lambda>t. Some t) (u32 '' 7'') = Inl InvalidJsonFormat \<and>
   parse (\<lambda>t. Some t) (u32 ''\"a\"'') = Inl InvalidJsonFormat \<and>
   parse (\<lambda>t. Some t) (u32 ''null'') = Inl InvalidJsonFormat \<and>
   parse (\<lambda>t. Some t) [] = Inl InvalidJsonFormat \<and>
   parse_object (\<lambda>t. Some t) (u32 ''{\"k\":true} x'') = Inr (JObject [(u32 ''k'', JBoolean True)], u32 '' x'') \<and>
   parse (\<lambda>t. Some t) (u32 '' {\"k\":true} x'') = Inl InvalidJsonFormat \<and>
   parse_array (\<lambda>t. Some t) (u32 ''[1] '') = Inr (JArray [JInteger 1], u32 '' '') \<and>
   parse (\<lambda>t. Some t) (u32 ''[1] '') = Inr (JArray [JInteger 1])"
proof -
  note m = parse_root_and_trailing [where ?'a = u8string and conv = "\<lambda>t. Some t"]
  have a: "parse (\<lambda>t. Some t) (u32 '' 7'') = Inl InvalidJsonFormat"
    using m [where s = "u32 '' 7''" and v = JNull and rest = "[]", THEN conjunct1]
    by (simp add: cursor_eval)
  have b: "parse (\<lambda>t. Some t) (u32 ''\"a\"'') = Inl InvalidJsonFormat"
    using m [where s = "u32 ''\"a\"''" and v = JNull and rest = "[]", THEN conjunct1]
    by (simp add: cursor_eval)
  have c: "parse (\<lambda>t. Some t) (u32 ''null'') = Inl InvalidJsonFormat"
    using m [where s = "u32 ''null''" and v = JNull and rest = "[]", THEN conjunct1]
    by (simp add: cursor_eval)
  have d: "parse (\<lambda>t. Some t) [] = Inl InvalidJsonFormat"
    using m [where s = "[]" and v = JNull and rest = "[]", THEN conjunct1]
    by (simp add: cursor_eval)
  have e: "parse_object (\<lambda>t. Some t) (u32 ''{\"k\":true} x'')
      = Inr (JObject [(u32 ''k'', JBoolean True)], u32 '' x'')"
    by (simp add: parse_eval)
  have f: "parse (\<lambda>t. Some t) (u32 '' {\"k\":true} x'') = Inl InvalidJsonFormat"
    using m [where s = "u32 '' {\"k\":true} x''" and v = "JObject [(u32 ''k'', JBoolean True)]"
        and rest = "u32 '' x''", THEN conjunct2, THEN conjunct1] e
    by (simp add: cursor_eval)
  have g: "parse_array (\<lambda>t. Some t) (u32 ''[1] '') = Inr (JArray [JInteger 1], u32 '' '')"
    by (simp add: parse_eval)
  have h: "parse (\<lambda>t. Some t) (u32 ''[1] '') = Inr (JArray [JInteger 1])"
    using m [where s = "u32 ''[1] ''" and v = "JArray [JInteger 1]"
        and rest = "u32 '' ''", THEN conjunct2, THEN conjunct2, THEN conjunct1] g
    by (simp add: cursor_eval)
  from a b c d e f g h show ?thesis by simp
qed

subsection \<open>Arrays: separators and trailing commas\<close>

lemma peek_Some_iff: "peek s = Some c \<longleftrightarrow> (\<exists>r. s = c # r)"
  by (cases s) (auto simp: peek_def)

lemma skip_char_skip_space: "skip_char (skip_space s) c = skip_char s c"
  by (simp add: skip_char_def skip_space_idem)

lemma skip_char_peek:
  "peek (skip_space s) = Some c \<Longrightarrow> skip_char s c = Inr (tl (skip_space s))"
  by (auto simp: skip_char_def peek_Some_iff)

lemma parse_value_no_start:
  "peek (skip_space s) = None \<or> (\<exists>c. peek (skip_space s) = Some c \<and> \<not> value_start c) \<Longrightarrow>
     parse_value conv s = Inl UnexpectedCharacter"
  by (subst parse_value.simps) (auto simp: peek_next_non_space_def value_start_def)

text \<open>
  C3, as the code has it. After an element of a non-empty array is parsed: when the next
  token (the next code point that \<^verbatim>\<open>skip_space\<close> does not skip, \<open>std_isspace\<close>) is \<^verbatim>\<open>,\<close> it is consumed and another
  element is parsed; when it is \<^verbatim>\<open>]\<close> the array ends; at the end of the input the loop
  ends and the closing \<^verbatim>\<open>]\<close> is found missing; any other token is left in the stream and
  \<^verbatim>\<open>parse_value\<close> is called on it for a further element, which fails with "unexpected
  character" unless the token starts a value. So elements need no comma between them
  (\<^verbatim>\<open>["a""b"]\<close> has size 2), while a token that starts no value is an error
  (\<^verbatim>\<open>["a":"b"]\<close>). An element is never started at \<^verbatim>\<open>]\<close>, so a comma followed by \<^verbatim>\<open>]\<close>
  fails: \<^verbatim>\<open>parse("[1,2,]")\<close> fails and \<^verbatim>\<open>parse("[1,2]")\<close> succeeds with size 2.

  The claim as stated ("any other token is a FormatError") fails at \<^verbatim>\<open>["a""b"]\<close>: after
  the element \<^verbatim>\<open>"a"\<close> the next token is a quote, and the text parses
  (\<open>array_missing_comma_counterexample\<close>).
\<close>

theorem array_separators:
  "(parse_value conv s = Inr (elem, s1) \<and> peek (skip_space s1) = Some 44 \<longrightarrow>
      array_loop conv vec s = array_loop conv (vec @ [elem]) (tl (skip_space s1))) \<and>
   (parse_value conv s = Inr (elem, s1) \<and> peek (skip_space s1) = Some 93 \<longrightarrow>
      array_loop conv vec s = Inr (vec @ [elem], skip_space s1)) \<and>
   (parse_value conv s = Inr (elem, s1) \<and> peek (skip_space s1) = None \<longrightarrow>
      array_loop conv vec s = Inr (vec @ [elem], []) \<and>
      skip_char [] 93 = Inl (ExpectedCharNotFound 93)) \<and>
   (parse_value conv s = Inr (elem, s1) \<and> peek (skip_space s1) = Some c \<and> c \<noteq> 44 \<and> c \<noteq> 93 \<longrightarrow>
      array_loop conv vec s = array_loop conv (vec @ [elem]) (skip_space s1)) \<and>
   (parse_value conv s = Inr (elem, s1) \<and> peek (skip_space s1) = Some c \<and> \<not> value_start c \<and>
    c \<noteq> 44 \<and> c \<noteq> 93 \<longrightarrow>
      array_loop conv vec s = Inl UnexpectedCharacter) \<and>
   (peek (skip_space s) = Some 93 \<longrightarrow> array_loop conv vec s = Inl UnexpectedCharacter) \<and>
   parse conv (u32 ''[1,2,]'') = Inl UnexpectedCharacter \<and>
   parse conv (u32 ''[1,2]'') = Inr (JArray [JInteger 1, JInteger 2]) \<and>
   size_json (JArray [JInteger 1, JInteger 2] :: 'd json) = Inr 2 \<and>
   parse conv (u32 ''[\"a\"\"b\"]'') = Inr (JArray [JString (u32 ''a''), JString (u32 ''b'')]) \<and>
   parse conv (u32 ''[\"a\":\"b\"]'') = Inl UnexpectedCharacter \<and>
   parse conv (u32 ''[1'') = Inl (ExpectedCharNotFound 93)"
proof -
  have comma: "parse_value conv s = Inr (elem, s1) \<and> peek (skip_space s1) = Some 44 \<longrightarrow>
      array_loop conv vec s = array_loop conv (vec @ [elem]) (tl (skip_space s1))"
    by (subst array_loop_unfold)
      (simp add: peek_next_non_space_def skip_char_skip_space skip_char_peek)
  have close: "parse_value conv s = Inr (elem, s1) \<and> peek (skip_space s1) = Some 93 \<longrightarrow>
      array_loop conv vec s = Inr (vec @ [elem], skip_space s1)"
    by (subst array_loop_unfold) (simp add: peek_next_non_space_def)
  have "array_loop conv vec s = Inr (vec @ [elem], [])"
    if "parse_value conv s = Inr (elem, s1)" "peek (skip_space s1) = None"
  proof -
    from that(2) have "skip_space s1 = []" by (simp add: peek_None_iff)
    with that show ?thesis
      by (subst array_loop_unfold) (simp add: peek_next_non_space_def)
  qed
  moreover have "skip_char [] 93 = Inl (ExpectedCharNotFound 93)"
    by (simp add: skip_char_def skip_space_def)
  ultimately have eof: "parse_value conv s = Inr (elem, s1) \<and> peek (skip_space s1) = None \<longrightarrow>
      array_loop conv vec s = Inr (vec @ [elem], []) \<and>
      skip_char [] 93 = Inl (ExpectedCharNotFound 93)"
    by simp
  have other1: "array_loop conv vec s = array_loop conv (vec @ [elem]) (skip_space s1)"
    if "parse_value conv s = Inr (elem, s1)" "peek (skip_space s1) = Some c" "c \<noteq> 44" "c \<noteq> 93"
    using that by (subst array_loop_unfold) (simp add: peek_next_non_space_def)
  have other2: "array_loop conv vec' (skip_space s1) = Inl UnexpectedCharacter"
    if "peek (skip_space s1) = Some c" "\<not> value_start c" for vec'
    using that parse_value_no_start [of "skip_space s1" conv]
    by (subst array_loop_unfold) (simp add: skip_space_idem)
  have other: "parse_value conv s = Inr (elem, s1) \<and> peek (skip_space s1) = Some c \<and> c \<noteq> 44 \<and> c \<noteq> 93 \<longrightarrow>
      array_loop conv vec s = array_loop conv (vec @ [elem]) (skip_space s1)"
    using other1 by simp
  have nostart: "parse_value conv s = Inr (elem, s1) \<and> peek (skip_space s1) = Some c \<and> \<not> value_start c \<and>
    c \<noteq> 44 \<and> c \<noteq> 93 \<longrightarrow>
      array_loop conv vec s = Inl UnexpectedCharacter"
    using other1 other2 by simp
  have trailing: "peek (skip_space s) = Some 93 \<longrightarrow> array_loop conv vec s = Inl UnexpectedCharacter"
    using parse_value_no_start [of s conv]
    by (subst array_loop_unfold) (auto simp: value_start_def isdigit_def)
  have ex1: "parse conv (u32 ''[1,2,]'') = Inl UnexpectedCharacter"
    by (simp add: parse_eval)
  have ex2: "parse conv (u32 ''[1,2]'') = Inr (JArray [JInteger 1, JInteger 2])"
    by (simp add: parse_eval)
  have ex3: "size_json (JArray [JInteger 1, JInteger 2] :: 'd json) = Inr 2"
    by (simp add: size_json_def)
  have ex4: "parse conv (u32 ''[\"a\"\"b\"]'') = Inr (JArray [JString (u32 ''a''), JString (u32 ''b'')])"
    by (simp add: parse_eval)
  have ex5: "parse conv (u32 ''[\"a\":\"b\"]'') = Inl UnexpectedCharacter"
    by (simp add: parse_eval)
  have ex6: "parse conv (u32 ''[1'') = Inl (ExpectedCharNotFound 93)"
    by (simp add: parse_eval)
  show ?thesis by (intro conjI) (fact comma close eof other nostart trailing ex1 ex2 ex3 ex4 ex5 ex6)+
qed

theorem array_missing_comma_counterexample:
  "parse_value numeral_conv (u32 ''\"a\"\"b\"]'') = Inr (JString (u32 ''a''), u32 ''\"b\"]'') \<and>
   peek (skip_space (u32 ''\"b\"]'')) = Some 34 \<and>
   parse numeral_conv (u32 ''[\"a\"\"b\"]'') = Inr (JArray [JString (u32 ''a''), JString (u32 ''b'')])"
  by (simp add: parse_eval)

theorem array_separators_witness:
  "array_loop numeral_conv [] (u32 ''1,2]'') = array_loop numeral_conv [JInteger 1] (u32 ''2]'') \<and>
   array_loop numeral_conv [JInteger 1] (u32 ''2]'') = Inr ([JInteger 1, JInteger 2], u32 '']'') \<and>
   array_loop numeral_conv [] (u32 ''[]'') = Inr ([JArray []], []) \<and>
   array_loop numeral_conv [] (u32 ''{} {} ]'') = array_loop numeral_conv [JObject []] (u32 ''{} ]'') \<and>
   array_loop numeral_conv [] (u32 ''{} : ]'') = Inl UnexpectedCharacter \<and>
   array_loop numeral_conv [JInteger 1] (u32 '' ]'') = Inl UnexpectedCharacter"
proof -
  note m = array_separators [where ?'a = u8string and conv = numeral_conv]
  have pv1: "parse_value numeral_conv (u32 ''1,2]'') = Inr (JInteger 1, u32 '',2]'')"
    and pv2: "parse_value numeral_conv (u32 ''2]'') = Inr (JInteger 2, u32 '']'')"
    and pv3: "parse_value numeral_conv (u32 ''[]'') = Inr (JArray [], [])"
    and pv4: "parse_value numeral_conv (u32 ''{} {} ]'') = Inr (JObject [], u32 '' {} ]'')"
    and pv5: "parse_value numeral_conv (u32 ''{} : ]'') = Inr (JObject [], u32 '' : ]'')"
    by (simp_all add: parse_eval)
  have a: "array_loop numeral_conv [] (u32 ''1,2]'') = array_loop numeral_conv [JInteger 1] (u32 ''2]'')"
    using m [where s = "u32 ''1,2]''" and elem = "JInteger 1" and ?s1.0 = "u32 '',2]''"
        and vec = "[]" and c = 0, THEN conjunct1] pv1
    by (simp add: cursor_eval)
  have b: "array_loop numeral_conv [JInteger 1] (u32 ''2]'') = Inr ([JInteger 1, JInteger 2], u32 '']'')"
    using m [where s = "u32 ''2]''" and elem = "JInteger 2" and ?s1.0 = "u32 '']''"
        and vec = "[JInteger 1]" and c = 0, THEN conjunct2, THEN conjunct1] pv2
    by (simp add: cursor_eval)
  have c: "array_loop numeral_conv [] (u32 ''[]'') = Inr ([JArray []], [])"
    using m [where s = "u32 ''[]''" and elem = "JArray []" and ?s1.0 = "[]"
        and vec = "[]" and c = 0, THEN conjunct2, THEN conjunct2, THEN conjunct1] pv3
    by (simp add: cursor_eval)
  have d: "array_loop numeral_conv [] (u32 ''{} {} ]'') = array_loop numeral_conv [JObject []] (u32 ''{} ]'')"
    using m [where s = "u32 ''{} {} ]''" and elem = "JObject []" and ?s1.0 = "u32 '' {} ]''"
        and vec = "[]" and c = 123, THEN conjunct2, THEN conjunct2, THEN conjunct2, THEN conjunct1] pv4
    by (simp add: cursor_eval)
  have e: "array_loop numeral_conv [] (u32 ''{} : ]'') = Inl UnexpectedCharacter"
    using m [where s = "u32 ''{} : ]''" and elem = "JObject []" and ?s1.0 = "u32 '' : ]''"
        and vec = "[]" and c = 58, THEN conjunct2, THEN conjunct2, THEN conjunct2,
        THEN conjunct2, THEN conjunct1] pv5
    by (simp add: cursor_eval value_start_def)
  have f: "array_loop numeral_conv [JInteger 1] (u32 '' ]'') = Inl UnexpectedCharacter"
    using m [where s = "u32 '' ]''" and elem = "JObject []" and ?s1.0 = "[]"
        and vec = "[JInteger 1]" and c = 0, THEN conjunct2, THEN conjunct2, THEN conjunct2,
        THEN conjunct2, THEN conjunct2, THEN conjunct1]
    by (simp add: cursor_eval)
  from a b c d e f show ?thesis by simp
qed

subsection \<open>Objects: commas are optional\<close>

lemma get_next_non_space_peek:
  "peek (skip_space s) = Some c \<Longrightarrow> snd (get_next_non_space (skip_space s)) = tl (skip_space s)"
  by (auto simp: get_next_non_space_def skip_space_idem get_def peek_Some_iff)

text \<open>
  C10, as the code has it. The object parser does not require commas between members
  and tolerates redundant commas: a comma is consumed wherever the loop sees one, a quote
  always starts a member, \<^verbatim>\<open>}\<close> ends the loop and any other token is the error "invalid
  object format" (a token is a code point that \<^verbatim>\<open>skip_space\<close> does not skip,
  \<open>std_isspace\<close>). A member whose value is a string, an array or an object can be
  followed by the next member with no comma: \<^verbatim>\<open>{"a":"x""b":"y"}\<close> and \<^verbatim>\<open>{"a":[1]"b":{}}\<close>
  parse to two members; \<^verbatim>\<open>{,}\<close> and \<^verbatim>\<open>{,,"a":1}\<close> parse. A number, boolean or null value
  extends to the next \<^verbatim>\<open>,\<close> \<^verbatim>\<open>]\<close> \<^verbatim>\<open>}\<close> or the end of the input, so \<^verbatim>\<open>{"a":1"b":2}\<close> fails:
  the token \<^verbatim>\<open>1"b":2\<close> is no number (and \<^verbatim>\<open>{"a":true"b":2}\<close> fails likewise).

  The claim as stated names \<^verbatim>\<open>{"a":1"b":2}\<close> as an input that parses to two members; it
  does not parse (\<open>object_number_needs_delimiter_counterexample\<close>).
\<close>

theorem object_commas_optional:
  "(peek (skip_space s) = Some 44 \<longrightarrow>
      object_loop conv return_val s = object_loop conv return_val (tl (skip_space s))) \<and>
   (peek (skip_space s) = Some 34 \<and> parse_member (skip_space s) = Inr (member, s2) \<and>
    skip_char s2 58 = Inr s3 \<and> parse_value conv s3 = Inr (member_value, s4) \<and>
    add_member return_val member member_value = Inr return_val' \<longrightarrow>
      object_loop conv return_val s = object_loop conv return_val' s4) \<and>
   (peek (skip_space s) = Some 125 \<longrightarrow> object_loop conv return_val s = Inr (return_val, skip_space s)) \<and>
   (peek (skip_space s) = Some c \<and> c \<noteq> 34 \<and> c \<noteq> 125 \<and> c \<noteq> 44 \<longrightarrow>
      object_loop conv return_val s = Inl InvalidObjectFormat) \<and>
   parse conv (u32 ''{\"a\":\"x\"\"b\":\"y\"}'')
     = Inr (JObject [(u32 ''a'', JString (u32 ''x'')), (u32 ''b'', JString (u32 ''y''))]) \<and>
   parse conv (u32 ''{\"a\":[1]\"b\":{}}'')
     = Inr (JObject [(u32 ''a'', JArray [JInteger 1]), (u32 ''b'', JObject [])]) \<and>
   parse conv (u32 ''{,}'') = Inr (JObject []) \<and>
   parse conv (u32 ''{,,\"a\":1}'') = Inr (JObject [(u32 ''a'', JInteger 1)]) \<and>
   parse conv (u32 ''{\"a\":1\"b\":2}'')
     = Inl (if conv (u32 ''1'') = None then StdOutOfRange else UnexpectedDoubleFormat) \<and>
   parse conv (u32 ''{\"a\":true\"b\":2}'') = Inl InvalidBooleanString"
proof -
  have comma: "peek (skip_space s) = Some 44 \<longrightarrow>
      object_loop conv return_val s = object_loop conv return_val (tl (skip_space s))"
    by (subst object_loop_unfold) (simp add: peek_next_non_space_def get_next_non_space_peek)
  have member: "peek (skip_space s) = Some 34 \<and> parse_member (skip_space s) = Inr (member, s2) \<and>
    skip_char s2 58 = Inr s3 \<and> parse_value conv s3 = Inr (member_value, s4) \<and>
    add_member return_val member member_value = Inr return_val' \<longrightarrow>
      object_loop conv return_val s = object_loop conv return_val' s4"
    by (subst object_loop_unfold) (simp add: peek_next_non_space_def)
  have close: "peek (skip_space s) = Some 125 \<longrightarrow>
      object_loop conv return_val s = Inr (return_val, skip_space s)"
    by (subst object_loop_unfold) (simp add: peek_next_non_space_def)
  have other: "peek (skip_space s) = Some c \<and> c \<noteq> 34 \<and> c \<noteq> 125 \<and> c \<noteq> 44 \<longrightarrow>
      object_loop conv return_val s = Inl InvalidObjectFormat"
    by (subst object_loop_unfold) (simp add: peek_next_non_space_def)
  have ex1: "parse conv (u32 ''{\"a\":\"x\"\"b\":\"y\"}'')
     = Inr (JObject [(u32 ''a'', JString (u32 ''x'')), (u32 ''b'', JString (u32 ''y''))])"
    by (simp add: parse_eval)
  have ex2: "parse conv (u32 ''{\"a\":[1]\"b\":{}}'')
     = Inr (JObject [(u32 ''a'', JArray [JInteger 1]), (u32 ''b'', JObject [])])"
    by (simp add: parse_eval)
  have ex3: "parse conv (u32 ''{,}'') = Inr (JObject [])"
    by (simp add: parse_eval)
  have ex4: "parse conv (u32 ''{,,\"a\":1}'') = Inr (JObject [(u32 ''a'', JInteger 1)])"
    by (simp add: parse_eval)
  have ex5: "parse conv (u32 ''{\"a\":1\"b\":2}'')
     = Inl (if conv (u32 ''1'') = None then StdOutOfRange else UnexpectedDoubleFormat)"
    by (cases "conv [49]") (simp_all add: parse_eval)
  have ex6: "parse conv (u32 ''{\"a\":true\"b\":2}'') = Inl InvalidBooleanString"
    by (simp add: parse_eval)
  show ?thesis by (intro conjI) (fact comma member close other ex1 ex2 ex3 ex4 ex5 ex6)+
qed

theorem object_number_needs_delimiter_counterexample:
  "parse numeral_conv (u32 ''{\"a\":1\"b\":2}'') = Inl UnexpectedDoubleFormat \<and>
   parse_number numeral_conv (u32 ''1\"b\":2}'') = Inl UnexpectedDoubleFormat \<and>
   read_token (u32 ''1\"b\":2}'') = (u32 ''1\"b\":2'', u32 ''}'')"
  by (simp add: parse_eval numeral_conv_def)

theorem object_commas_optional_witness:
  "object_loop numeral_conv (JObject []) (u32 '' , \"a\":1}'')
     = object_loop numeral_conv (JObject []) (u32 '' \"a\":1}'') \<and>
   object_loop numeral_conv (JObject []) (u32 ''\"a\":\"x\"\"b\":\"y\"}'')
     = object_loop numeral_conv (JObject [(u32 ''a'', JString (u32 ''x''))]) (u32 ''\"b\":\"y\"}'') \<and>
   object_loop numeral_conv (JObject []) (u32 '' }'') = Inr (JObject [], u32 ''}'') \<and>
   object_loop numeral_conv (JObject []) (u32 ''1}'') = Inl InvalidObjectFormat"
proof -
  note m = object_commas_optional [where ?'a = u8string and conv = numeral_conv]
  have a: "object_loop numeral_conv (JObject []) (u32 '' , \"a\":1}'')
     = object_loop numeral_conv (JObject []) (u32 '' \"a\":1}'')"
    using m [where s = "u32 '' , \"a\":1}''" and return_val = "JObject []" and member = "[]"
        and ?s2.0 = "[]" and ?s3.0 = "[]" and ?s4.0 = "[]" and member_value = JNull
        and return_val' = JNull and c = 0, THEN conjunct1]
    by (simp add: cursor_eval)
  have pm: "parse_member (u32 ''\"a\":\"x\"\"b\":\"y\"}'') = Inr (u32 ''a'', u32 '':\"x\"\"b\":\"y\"}'')"
    and pv: "parse_value numeral_conv (u32 ''\"x\"\"b\":\"y\"}'') = Inr (JString (u32 ''x''), u32 ''\"b\":\"y\"}'')"
    and am: "add_member (JObject []) (u32 ''a'') (JString (u32 ''x'') :: u8string json)
               = Inr (JObject [(u32 ''a'', JString (u32 ''x''))])"
    by (simp_all add: parse_eval)
  have b: "object_loop numeral_conv (JObject []) (u32 ''\"a\":\"x\"\"b\":\"y\"}'')
     = object_loop numeral_conv (JObject [(u32 ''a'', JString (u32 ''x''))]) (u32 ''\"b\":\"y\"}'')"
    using m [where s = "u32 ''\"a\":\"x\"\"b\":\"y\"}''" and return_val = "JObject []"
        and member = "u32 ''a''" and ?s2.0 = "u32 '':\"x\"\"b\":\"y\"}''"
        and ?s3.0 = "u32 ''\"x\"\"b\":\"y\"}''" and ?s4.0 = "u32 ''\"b\":\"y\"}''"
        and member_value = "JString (u32 ''x'')"
        and return_val' = "JObject [(u32 ''a'', JString (u32 ''x''))]" and c = 0,
        THEN conjunct2, THEN conjunct1] pm pv am
    by (simp add: cursor_eval)
  have c: "object_loop numeral_conv (JObject []) (u32 '' }'') = Inr (JObject [], u32 ''}'')"
    using m [where s = "u32 '' }''" and return_val = "JObject []" and member = "[]"
        and ?s2.0 = "[]" and ?s3.0 = "[]" and ?s4.0 = "[]" and member_value = JNull
        and return_val' = JNull and c = 0, THEN conjunct2, THEN conjunct2, THEN conjunct1]
    by (simp add: cursor_eval)
  have d: "object_loop numeral_conv (JObject []) (u32 ''1}'') = Inl InvalidObjectFormat"
    using m [where s = "u32 ''1}''" and return_val = "JObject []" and member = "[]"
        and ?s2.0 = "[]" and ?s3.0 = "[]" and ?s4.0 = "[]" and member_value = JNull
        and return_val' = JNull and c = 49, THEN conjunct2, THEN conjunct2, THEN conjunct2,
        THEN conjunct1]
    by (simp add: cursor_eval)
  from a b c d show ?thesis by simp
qed

subsection \<open>Objects: duplicate keys\<close>

lemma map_find_assign_same: "map_find (map_assign k v m) k = Some v"
  by (induction m) auto

lemma map_find_assign_other: "k' \<noteq> k \<Longrightarrow> map_find (map_assign k v m) k' = map_find m k'"
  by (induction m) auto

lemma set_fst_map_assign: "fst ` set (map_assign k v m) = insert k (fst ` set m)"
proof (induction m)
  case Nil
  then show ?case by simp
next
  case (Cons a m)
  obtain k' v' where a: "a = (k', v')" by (cases a)
  from Cons.IH show ?case unfolding a by (cases "k < k'"; cases "k = k'") auto
qed

lemma map_wf_Cons: "map_wf ((k, v) # m) \<longleftrightarrow> (\<forall>k'\<in>fst ` set m. k < k') \<and> map_wf m"
  by (auto simp: map_wf_def)

lemma map_wf_assign: "map_wf m \<Longrightarrow> map_wf (map_assign k v m)"
proof (induction m)
  case Nil
  then show ?case by (simp add: map_wf_def)
next
  case (Cons a m)
  obtain k' v' where a: "a = (k', v')" by (cases a)
  from Cons.prems a have wf: "map_wf m" and lt: "\<forall>x\<in>fst ` set m. k' < x"
    by (simp_all add: map_wf_Cons)
  show ?case
  proof (cases "k < k'")
    case True
    with lt have "\<forall>x\<in>fst ` set m. k < x" by auto
    with True wf lt a show ?thesis by (simp add: map_wf_Cons)
  next
    case False
    show ?thesis
    proof (cases "k = k'")
      case True
      with wf lt a show ?thesis by (simp add: map_wf_Cons)
    next
      case ne: False
      with False have "k' < k" by simp
      with False ne a lt Cons.IH [OF wf] show ?thesis
        by (simp add: map_wf_Cons set_fst_map_assign)
    qed
  qed
qed

lemma map_wf_distinct: "map_wf m \<Longrightarrow> distinct (map fst m)"
  by (simp add: map_wf_def strict_sorted_iff)

lemma add_member_JObject: "add_member (JObject m) k v = Inr (JObject (map_assign k v m))"
  by (simp add: add_member_def CHECK_TYPE_MISMATCH_def)

lemma add_members_JObject:
  "add_members (JObject m) kvs = Inr (JObject (foldl (\<lambda>m (k, v). map_assign k v m) m kvs))"
  unfolding add_members_def
  by (induction kvs arbitrary: m) (auto simp: add_member_JObject)

lemma map_find_foldl_assign:
  "map_find (foldl (\<lambda>m (k, v). map_assign k v m) m kvs) k =
     (case map_of (rev kvs) k of Some v \<Rightarrow> Some v | None \<Rightarrow> map_find m k)"
proof (induction kvs arbitrary: m)
  case Nil
  then show ?case by simp
next
  case (Cons a kvs)
  obtain k' v' where a: "a = (k', v')" by (cases a)
  show ?case
    by (cases "map_of (rev kvs) k")
      (auto simp: a Cons.IH map_of_append map_find_assign_same map_find_assign_other
        split: option.splits)
qed

lemma map_wf_foldl_assign:
  "map_wf m \<Longrightarrow> map_wf (foldl (\<lambda>m (k, v). map_assign k v m) m kvs)"
  by (induction kvs arbitrary: m) (auto simp: map_wf_assign)

text \<open>
  C6. The last occurrence of a member key wins. \<^verbatim>\<open>add_member\<close> stores the value under the
  key, replacing the value the key had, leaves the other keys as they were and keeps the
  keys unique and in order; after any sequence of \<^verbatim>\<open>add_member\<close> calls on an empty object
  in which a key occurs twice, the key holds the value of its last occurrence. The
  parser inserts each member it reads with \<^verbatim>\<open>add_member\<close> into the object read so far, so
  \<^verbatim>\<open>parse("{\"a\":1,\"a\":2}")["a"]\<close> is 2 and the object has one member.
\<close>

theorem duplicate_key_last_wins:
  "add_member (JObject m) k v = Inr (JObject (map_assign k v m)) \<and>
   index_key (JObject (map_assign k v m)) k = Inr v \<and>
   (k' \<noteq> k \<longrightarrow> map_find (map_assign k v m) k' = map_find m k') \<and>
   (map_wf m \<longrightarrow> map_wf (map_assign k v m) \<and> distinct (map fst (map_assign k v m))) \<and>
   (\<exists>m'. add_members (JObject []) (kvs @ [(k, v1)] @ kvs' @ [(k, v2)]) = Inr (JObject m') \<and>
         index_key (JObject m') k = Inr v2 \<and> map_wf m' \<and> distinct (map fst m')) \<and>
   (peek (skip_space s) = Some 34 \<and> parse_member (skip_space s) = Inr (k, s2) \<and>
    skip_char s2 58 = Inr s3 \<and> parse_value conv s3 = Inr (v, s4) \<longrightarrow>
      object_loop conv (JObject m) s = object_loop conv (JObject (map_assign k v m)) s4) \<and>
   parse conv (u32 ''{\"a\":1,\"a\":2}'') = Inr (JObject [(u32 ''a'', JInteger 2)]) \<and>
   index_key (JObject [(u32 ''a'', JInteger 2 :: 'd json)]) (u32 ''a'') = Inr (JInteger 2) \<and>
   size_json (JObject [(u32 ''a'', JInteger 2 :: 'd json)]) = Inr 1"
proof -
  have a: "add_member (JObject m) k v = Inr (JObject (map_assign k v m))"
    by (rule add_member_JObject)
  have b: "index_key (JObject (map_assign k v m)) k = Inr v"
    by (simp add: index_key_def CHECK_TYPE_MISMATCH_def map_find_assign_same)
  have c: "k' \<noteq> k \<longrightarrow> map_find (map_assign k v m) k' = map_find m k'"
    by (simp add: map_find_assign_other)
  have d: "map_wf m \<longrightarrow> map_wf (map_assign k v m) \<and> distinct (map fst (map_assign k v m))"
    by (simp add: map_wf_assign map_wf_distinct)
  have e: "\<exists>m'. add_members (JObject []) (kvs @ [(k, v1)] @ kvs' @ [(k, v2)]) = Inr (JObject m') \<and>
         index_key (JObject m') k = Inr v2 \<and> map_wf m' \<and> distinct (map fst m')"
  proof -
    let ?m = "foldl (\<lambda>m (k, v). map_assign k v m) [] (kvs @ [(k, v1)] @ kvs' @ [(k, v2)])"
    have "map_wf ?m" by (rule map_wf_foldl_assign) (simp add: map_wf_def)
    moreover have "map_find ?m k = Some v2"
      by (simp add: map_find_assign_same)
    ultimately show ?thesis
      by (intro exI [of _ ?m])
        (simp add: add_members_JObject index_key_def CHECK_TYPE_MISMATCH_def map_wf_distinct)
  qed
  have f: "peek (skip_space s) = Some 34 \<and> parse_member (skip_space s) = Inr (k, s2) \<and>
    skip_char s2 58 = Inr s3 \<and> parse_value conv s3 = Inr (v, s4) \<longrightarrow>
      object_loop conv (JObject m) s = object_loop conv (JObject (map_assign k v m)) s4"
    by (subst object_loop_unfold) (simp add: peek_next_non_space_def add_member_JObject)
  have g: "parse conv (u32 ''{\"a\":1,\"a\":2}'') = Inr (JObject [(u32 ''a'', JInteger 2)])"
    by (simp add: parse_eval)
  have h: "index_key (JObject [(u32 ''a'', JInteger 2 :: 'd json)]) (u32 ''a'') = Inr (JInteger 2)"
    by (simp add: index_key_def CHECK_TYPE_MISMATCH_def)
  have i: "size_json (JObject [(u32 ''a'', JInteger 2 :: 'd json)]) = Inr 1"
    by (simp add: size_json_def)
  show ?thesis by (intro conjI) (fact a b c d e f g h i)+
qed

theorem duplicate_key_last_wins_witness:
  "add_member (JObject [(u32 ''a'', JInteger 1)]) (u32 ''a'') (JInteger 2 :: u8string json)
     = Inr (JObject [(u32 ''a'', JInteger 2)]) \<and>
   map_find (map_assign (u32 ''a'') (JInteger 2 :: u8string json) [(u32 ''a'', JInteger 1), (u32 ''b'', JNull)]) (u32 ''b'')
     = Some JNull \<and>
   map_wf [(u32 ''a'', JInteger 1 :: u8string json), (u32 ''b'', JNull)] \<and>
   map_wf (map_assign (u32 ''a'') (JInteger 2 :: u8string json) [(u32 ''a'', JInteger 1), (u32 ''b'', JNull)]) \<and>
   object_loop numeral_conv (JObject [(u32 ''a'', JInteger 1)]) (u32 ''\"a\":2}'')
     = object_loop numeral_conv (JObject [(u32 ''a'', JInteger 2)]) (u32 ''}'')"
proof -
  note m = duplicate_key_last_wins [where ?'a = u8string and conv = numeral_conv
      and k = "u32 ''a''" and v = "JInteger 2" and k' = "u32 ''b''" and kvs = "[]" and kvs' = "[]"
      and ?v1.0 = JNull and ?v2.0 = JNull and s = "u32 ''\"a\":2}''" and ?s2.0 = "u32 '':2}''"
      and ?s3.0 = "u32 ''2}''" and ?s4.0 = "u32 ''}''"]
  have wf: "map_wf [(u32 ''a'', JInteger 1 :: u8string json), (u32 ''b'', JNull)]"
    by (simp add: map_wf_def u32_def)
  have a: "add_member (JObject [(u32 ''a'', JInteger 1)]) (u32 ''a'') (JInteger 2 :: u8string json)
     = Inr (JObject [(u32 ''a'', JInteger 2)])"
    using m [where m = "[(u32 ''a'', JInteger 1)]", THEN conjunct1] by simp
  have b: "map_find (map_assign (u32 ''a'') (JInteger 2 :: u8string json)
             [(u32 ''a'', JInteger 1), (u32 ''b'', JNull)]) (u32 ''b'') = Some JNull"
    using m [where m = "[(u32 ''a'', JInteger 1), (u32 ''b'', JNull)]", THEN conjunct2,
        THEN conjunct2, THEN conjunct1]
    by (simp add: u32_def)
  have c: "map_wf (map_assign (u32 ''a'') (JInteger 2 :: u8string json)
             [(u32 ''a'', JInteger 1), (u32 ''b'', JNull)])"
    using m [where m = "[(u32 ''a'', JInteger 1), (u32 ''b'', JNull)]", THEN conjunct2,
        THEN conjunct2, THEN conjunct2, THEN conjunct1] wf
    by simp
  have pm: "parse_member (u32 ''\"a\":2}'') = Inr (u32 ''a'', u32 '':2}'')"
    and pv: "parse_value numeral_conv (u32 ''2}'') = Inr (JInteger 2, u32 ''}'')"
    by (simp_all add: parse_eval)
  have d: "object_loop numeral_conv (JObject [(u32 ''a'', JInteger 1)]) (u32 ''\"a\":2}'')
     = object_loop numeral_conv (JObject [(u32 ''a'', JInteger 2)]) (u32 ''}'')"
    using m [where m = "[(u32 ''a'', JInteger 1)]", THEN conjunct2, THEN conjunct2,
        THEN conjunct2, THEN conjunct2, THEN conjunct2, THEN conjunct1] pm pv
    by (simp add: cursor_eval)
  from wf a b c d show ?thesis by simp
qed

subsection \<open>Numbers: integer or double\<close>

lemma find_first_not_of_None_iff:
  "find_first_not_of str chars = None \<longleftrightarrow> (\<forall>c\<in>set str. c \<in> set chars)"
proof -
  have "length (takeWhile (\<lambda>c. c \<in> set chars) str) = length str \<longleftrightarrow> (\<forall>c\<in>set str. c \<in> set chars)"
    by (metis takeWhile_eq_all_conv length_takeWhile_le takeWhile_eq_take take_all_iff
        le_refl)
  then show ?thesis by (simp add: find_first_not_of_def Let_def)
qed

lemma digit_chars: "c \<in> set (u32 ''0123456789-'') \<longleftrightarrow> isdigit c \<or> c = 45"
  by (auto simp: u32_def isdigit_def) arith

lemma integer_token_iff:
  "find_first_not_of nums (u32 ''0123456789-'') = None \<longleftrightarrow> integer_token nums"
  by (simp add: find_first_not_of_None_iff integer_token_def digit_chars)

lemma parse_number_unfold:
  "parse_number conv s =
     (if integer_token (trim (fst (read_token s))) then
        (case to_integer (trim (fst (read_token s))) of
           Inl e \<Rightarrow> Inl e | Inr n \<Rightarrow> Inr (JInteger n, snd (read_token s)))
      else
        (case to_double conv (trim (fst (read_token s))) of
           Inl e \<Rightarrow> Inl e | Inr d \<Rightarrow> Inr (JDouble d, snd (read_token s))))"
  by (cases "read_token s")
    (auto simp: parse_number_def integer_token_iff U32ToU8_def split: sum.splits)

lemma dropWhile_isspace_digits:
  "nums \<noteq> [] \<Longrightarrow> isdigit (hd nums) \<or> hd nums = 45 \<Longrightarrow> dropWhile isspace nums = nums"
  by (cases nums) (auto simp: isspace_def isdigit_def)

lemma stoll_digits:
  assumes "ds \<noteq> []" "\<forall>c\<in>set ds. isdigit c" "digits_value 10 ds < 2 ^ 63"
  shows "stoll ds = Inr (word_of_int (int (digits_value 10 ds)), length ds)"
proof -
  from assms(1,2) have h: "isdigit (hd ds)" by (cases ds) auto
  then have ne: "hd ds \<noteq> 45" "hd ds \<noteq> 43" by (auto simp: isdigit_def)
  from assms(1) h have d: "dropWhile isspace ds = ds" by (simp add: dropWhile_isspace_digits)
  from assms(2) have t: "takeWhile isdigit ds = ds" by (simp add: takeWhile_eq_all_conv)
  from assms(1) ne have sg: "(case ds of [] \<Rightarrow> 0 | c # r \<Rightarrow> if c = 45 \<or> c = 43 then 1 else 0) = (0::nat)"
    and neg: "(case ds of [] \<Rightarrow> False | c # r \<Rightarrow> c = 45) = False"
    by (cases ds; simp)+
  have "\<not> int (digits_value 10 ds) < - (2 ^ 63)" by simp
  moreover from assms(3) have "\<not> (2::int) ^ 63 \<le> int (digits_value 10 ds)"
    by (metis not_le of_nat_less_iff of_nat_numeral of_nat_power)
  ultimately show ?thesis
    using assms(1) by (simp add: stoll_def Let_def d t sg neg)
qed

lemma stoll_minus_digits:
  assumes "ds \<noteq> []" "\<forall>c\<in>set ds. isdigit c" "digits_value 10 ds \<le> 2 ^ 63"
  shows "stoll (45 # ds) = Inr (word_of_int (- int (digits_value 10 ds)), Suc (length ds))"
proof -
  from assms(2) have t: "takeWhile isdigit ds = ds" by (simp add: takeWhile_eq_all_conv)
  from assms(3) have "int (digits_value 10 ds) \<le> 2 ^ 63"
    by (metis of_nat_le_iff of_nat_numeral of_nat_power)
  then have "\<not> - int (digits_value 10 ds) < - (2 ^ 63)" by simp
  moreover have "\<not> (2::int) ^ 63 \<le> - int (digits_value 10 ds)"
  proof -
    have "- int (digits_value 10 ds) \<le> 0" by simp
    also have "(0::int) < 2 ^ 63" by simp
    finally show ?thesis by simp
  qed
  ultimately show ?thesis
    using assms(1) by (simp add: stoll_def Let_def t isspace_def)
qed

lemma nonspace_prefix_0: "nonspace_prefix 0 s"
  by (simp add: nonspace_prefix_def)

lemma nonspace_prefix_add:
  "nonspace_prefix a s \<Longrightarrow> nonspace_prefix b (drop a s) \<Longrightarrow> nonspace_prefix (a + b) s"
  by (auto simp: nonspace_prefix_def take_add)

lemma nonspace_prefix_Cons:
  "\<not> isspace c \<Longrightarrow> nonspace_prefix n r \<Longrightarrow> nonspace_prefix (Suc n) (c # r)"
  by (auto simp: nonspace_prefix_def)

lemma nonspace_prefix_takeWhile:
  "(\<And>c. P c \<Longrightarrow> \<not> isspace c) \<Longrightarrow> nonspace_prefix (length (takeWhile P s)) s"
  by (auto simp: nonspace_prefix_def length_takeWhile_le takeWhile_eq_take [symmetric]
      dest: set_takeWhileD)

lemma isdigit_nonspace: "isdigit c \<Longrightarrow> \<not> isspace c"
  by (auto simp: isdigit_def isspace_def)

lemma isxdigit_nonspace: "isxdigit c \<Longrightarrow> \<not> isspace c"
  by (auto simp: isxdigit_def isdigit_def isspace_def)

lemma isalnum_nonspace: "isalnum c \<or> c = 95 \<Longrightarrow> \<not> isspace c"
  by (auto simp: isalnum_def isdigit_def isspace_def)

lemma sign_digits_nonspace:
  "nonspace_prefix ((case r of [] \<Rightarrow> 0 | d # r' \<Rightarrow> if d = 45 \<or> d = 43 then 1 else 0)
     + length (takeWhile isdigit (drop (case r of [] \<Rightarrow> 0 | d # r' \<Rightarrow> if d = 45 \<or> d = 43 then 1 else 0) r))) r"
proof (cases r)
  case Nil
  then show ?thesis by (simp add: nonspace_prefix_def)
next
  case (Cons d r')
  show ?thesis
  proof (cases "d = 45 \<or> d = 43")
    case True
    then have "\<not> isspace d" by (auto simp: isspace_def)
    with True Cons show ?thesis
      using nonspace_prefix_Cons [OF _ nonspace_prefix_takeWhile [of isdigit r'], of d]
      by (simp add: isdigit_nonspace)
  next
    case False
    with Cons show ?thesis
      using nonspace_prefix_takeWhile [of isdigit r] by (simp add: isdigit_nonspace)
  qed
qed

lemma exponent_len_nonspace:
  assumes "\<not> isspace marker" "97 \<le> marker"
  shows "nonspace_prefix (exponent_len marker s) s"
proof (cases s)
  case Nil
  then show ?thesis by (simp add: exponent_len_def nonspace_prefix_def)
next
  case (Cons c r)
  show ?thesis
  proof (cases "tolower c = marker")
    case False
    with Cons show ?thesis by (simp add: exponent_len_def nonspace_prefix_0)
  next
    case True
    with assms have c: "\<not> isspace c" by (auto simp: tolower_def isspace_def split: if_splits)
    let ?sg = "case r of [] \<Rightarrow> 0 | d # r' \<Rightarrow> if d = 45 \<or> d = 43 then 1 else (0::nat)"
    show ?thesis
    proof (cases "takeWhile isdigit (drop ?sg r) = []")
      case e: True
      with True Cons show ?thesis by (simp add: exponent_len_def nonspace_prefix_0 Let_def)
    next
      case ne: False
      from nonspace_prefix_Cons [OF c sign_digits_nonspace [of r]] True Cons ne
      show ?thesis by (simp add: exponent_len_def Let_def)
    qed
  qed
qed

lemma mantissa_len_nonspace:
  assumes "\<And>c. P c \<Longrightarrow> \<not> isspace c" "mantissa_len P s = Some n"
  shows "nonspace_prefix n s"
proof -
  let ?d1 = "takeWhile P s"
  let ?r = "drop (length ?d1) s"
  have p1: "nonspace_prefix (length ?d1) s" by (rule nonspace_prefix_takeWhile) (rule assms(1))
  show ?thesis
  proof (cases ?r)
    case Nil
    with assms(2) p1 show ?thesis by (auto simp: mantissa_len_def Let_def split: if_splits)
  next
    case (Cons c r')
    show ?thesis
    proof (cases "c = 46")
      case False
      with Cons assms(2) p1 show ?thesis by (auto simp: mantissa_len_def Let_def split: if_splits)
    next
      case True
      have "\<not> isspace (46::nat)" by (simp add: isspace_def)
      from nonspace_prefix_Cons [OF this nonspace_prefix_takeWhile [of P r']] assms(1)
      have "nonspace_prefix (Suc (length (takeWhile P r'))) ?r" using Cons True by simp
      from nonspace_prefix_add [OF p1 this] Cons True assms(2)
      show ?thesis by (auto simp: mantissa_len_def Let_def split: if_splits)
    qed
  qed
qed

lemma decimal_len_nonspace: "decimal_len s = Some n \<Longrightarrow> nonspace_prefix n s"
proof -
  assume "decimal_len s = Some n"
  then obtain m where m: "mantissa_len isdigit s = Some m"
    and n: "n = m + exponent_len 101 (drop m s)"
    by (auto simp: decimal_len_def split: option.splits)
  have "nonspace_prefix m s"
    by (rule mantissa_len_nonspace [OF _ m]) (rule isdigit_nonspace)
  from nonspace_prefix_add [OF this exponent_len_nonspace [of 101 "drop m s"]] n
  show ?thesis by (simp add: isspace_def)
qed

lemma take2_nonspace:
  assumes "map tolower (take 2 s) = [48, 120]" shows "nonspace_prefix 2 s"
proof -
  from assms obtain a b r where s: "s = a # b # r"
    by (cases s; cases "tl s") auto
  with assms have "tolower a = 48" "tolower b = 120" by simp_all
  then have "\<not> isspace a" "\<not> isspace b" by (auto simp: tolower_def isspace_def split: if_splits)
  with s show ?thesis by (simp add: nonspace_prefix_def)
qed

lemma hex_len_nonspace: "hex_len s = Some n \<Longrightarrow> nonspace_prefix n s"
proof -
  assume a: "hex_len s = Some n"
  then have p: "map tolower (take 2 s) = [48, 120]" by (simp add: hex_len_def split: if_splits)
  with a obtain m where m: "mantissa_len isxdigit (drop 2 s) = Some m"
    and n: "n = 2 + m + exponent_len 112 (drop (2 + m) s)"
    by (auto simp: hex_len_def split: option.splits)
  have "nonspace_prefix m (drop 2 s)"
    by (rule mantissa_len_nonspace [OF _ m]) (rule isxdigit_nonspace)
  from nonspace_prefix_add [OF take2_nonspace [OF p] this]
  have "nonspace_prefix (2 + m) s" .
  from nonspace_prefix_add [OF this exponent_len_nonspace [of 112 "drop (2 + m) s"]] n
  show ?thesis by (simp add: isspace_def)
qed

lemma letters_nonspace:
  assumes "map tolower (take k s) = w" "length w = k" "\<forall>c\<in>set w. 97 \<le> c"
  shows "nonspace_prefix k s"
proof -
  from assms(1,2) have len: "k \<le> length s"
    by (metis length_map length_take min_def nat_le_linear)
  have "\<not> isspace c" if "c \<in> set (take k s)" for c
  proof -
    from that have "tolower c \<in> set (map tolower (take k s))" by simp
    with assms have "97 \<le> tolower c" by simp
    then show ?thesis by (auto simp: tolower_def isspace_def split: if_splits)
  qed
  with len show ?thesis by (simp add: nonspace_prefix_def)
qed

lemma inf_len_nonspace: "inf_len s = Some n \<Longrightarrow> nonspace_prefix n s"
  using letters_nonspace [of 8 s "[105, 110, 102, 105, 110, 105, 116, 121]"]
    letters_nonspace [of 3 s "[105, 110, 102]"]
  by (auto simp: inf_len_def split: if_splits)

lemma nan_len_nonspace: "nan_len s = Some n \<Longrightarrow> nonspace_prefix n s"
proof -
  assume a: "nan_len s = Some n"
  then have p: "map tolower (take 3 s) = [110, 97, 110]" by (simp add: nan_len_def split: if_splits)
  from letters_nonspace [OF p] have p3: "nonspace_prefix 3 s" by simp
  show ?thesis
  proof (cases "n = 3")
    case True
    with p3 show ?thesis by simp
  next
    case False
    with a p obtain r cs r' where d: "drop 3 s = 40 # r" and cs: "cs = takeWhile (\<lambda>x. isalnum x \<or> x = 95) r"
      and e: "drop (length cs) r = 41 # r'" and n: "n = 3 + 1 + length cs + 1"
      by (auto simp: nan_len_def Let_def split: if_splits list.splits)
    have "nonspace_prefix (length cs) r" unfolding cs
      by (rule nonspace_prefix_takeWhile) (rule isalnum_nonspace)
    moreover have "nonspace_prefix 1 (drop (length cs) r)"
      by (simp add: e nonspace_prefix_def isspace_def)
    ultimately have "nonspace_prefix (length cs + 1) r" by (rule nonspace_prefix_add)
    moreover have "\<not> isspace (40::nat)" by (simp add: isspace_def)
    ultimately have "nonspace_prefix (Suc (length cs + 1)) (drop 3 s)"
      unfolding d by (intro nonspace_prefix_Cons)
    from nonspace_prefix_add [OF p3 this] n show ?thesis by simp
  qed
qed

lemma strtod_len_nonspace: "strtod_len s = Some n \<Longrightarrow> nonspace_prefix n s"
  by (auto simp: strtod_len_def split: option.splits
      dest: hex_len_nonspace decimal_len_nonspace inf_len_nonspace nan_len_nonspace)

lemma sign_nonspace:
  "nonspace_prefix (case s of [] \<Rightarrow> 0 | c # r \<Rightarrow> if c = 45 \<or> c = 43 then 1 else 0) s"
  by (cases s) (auto simp: nonspace_prefix_def isspace_def)

lemma in_take_append: "length xs < m \<Longrightarrow> w \<in> set (take m (xs @ w # ys))"
  by (cases "m - length xs") auto

lemma stod_pos:
  assumes "stod conv str = Inr (d, pos)"
  shows "\<exists>n. strtod_len (drop (sign_len (dropWhile isspace str)) (dropWhile isspace str)) = Some n \<and>
             pos = length str - length (dropWhile isspace str) + sign_len (dropWhile isspace str) + n"
  using assms unfolding stod_def Let_def sign_len_def [symmetric]
  by (auto split: option.splits)

lemma stod_stops_at_space:
  assumes "stod conv (a @ w # b) = Inr (d, pos)" "isspace w" "\<exists>c\<in>set a. \<not> isspace c"
  shows "pos \<le> length a"
proof -
  define str where "str = a @ w # b"
  define s0 where "s0 = dropWhile isspace str"
  define da where "da = dropWhile isspace a"
  from assms(3) have s0: "s0 = da @ w # b"
    unfolding s0_def str_def da_def by (auto simp: dropWhile_append1)
  from stod_pos [OF assms(1)] obtain n where n: "strtod_len (drop (sign_len s0) s0) = Some n"
    and pos: "pos = length str - length s0 + sign_len s0 + n"
    unfolding s0_def str_def by blast
  have sgp: "nonspace_prefix (sign_len s0) s0"
    unfolding sign_len_def by (rule sign_nonspace)
  from nonspace_prefix_add [OF sgp strtod_len_nonspace [OF n]]
  have np: "nonspace_prefix (sign_len s0 + n) s0" .
  have "sign_len s0 + n \<le> length da"
  proof (rule ccontr)
    assume "\<not> ?thesis"
    then have "length da < sign_len s0 + n" by simp
    then have "w \<in> set (take (sign_len s0 + n) s0)"
      unfolding s0 by (rule in_take_append)
    with np assms(2) show False by (auto simp: nonspace_prefix_def)
  qed
  moreover have "length str - length s0 = length a - length da"
    unfolding s0 str_def by simp
  moreover have "length da \<le> length a" unfolding da_def by (rule length_dropWhile_le)
  ultimately show ?thesis using pos by simp
qed

text \<open>
  C2. The number parser accumulates the code points up to the next \<^verbatim>\<open>,\<close> \<^verbatim>\<open>]\<close> \<^verbatim>\<open>}\<close> or the
  end of the input and trims the token. If the trimmed token consists only of the
  characters \<^verbatim>\<open>0-9\<close> and \<^verbatim>\<open>-\<close>, a result is of kind IntegerNumber and \<^verbatim>\<open>std::stoll\<close> has
  consumed the whole token; otherwise a result is of kind DoubleNumber and \<^verbatim>\<open>std::stod\<close>
  has consumed the whole token. A conversion that stops before the end of the token is
  an error ("unexpected number format"); a bare \<^verbatim>\<open>-\<close> is an error; a token with a space
  inside it is an error. A token of decimal digits, with or without a leading \<^verbatim>\<open>-\<close>,
  whose value fits 64 bits parses to that IntegerNumber; a token that is no integer
  token and that \<^verbatim>\<open>std::stod\<close> consumes in full parses to the DoubleNumber it converts to.
\<close>

theorem number_kind:
  "(integer_token (trim (fst (read_token s))) \<and> parse_number conv s = Inr (v, s') \<longrightarrow>
      (\<exists>n. v = JInteger n \<and> stoll (trim (fst (read_token s))) = Inr (n, length (trim (fst (read_token s)))))
      \<and> s' = snd (read_token s)) \<and>
   (\<not> integer_token (trim (fst (read_token s))) \<and> parse_number conv s = Inr (v, s') \<longrightarrow>
      (\<exists>d. v = JDouble d \<and> stod conv (trim (fst (read_token s))) = Inr (d, length (trim (fst (read_token s)))))
      \<and> s' = snd (read_token s)) \<and>
   (integer_token (trim (fst (read_token s))) \<and> stoll (trim (fst (read_token s))) = Inr (n, pos) \<and>
    pos \<noteq> length (trim (fst (read_token s))) \<longrightarrow>
      parse_number conv s = Inl UnexpectedIntegerFormat) \<and>
   (\<not> integer_token (trim (fst (read_token s))) \<and> stod conv (trim (fst (read_token s))) = Inr (d, pos) \<and>
    pos \<noteq> length (trim (fst (read_token s))) \<longrightarrow>
      parse_number conv s = Inl UnexpectedDoubleFormat) \<and>
   (trim (fst (read_token s)) = [45] \<longrightarrow> parse_number conv s = Inl StdInvalidArgument) \<and>
   (trim (fst (read_token s)) = ds \<and> ds \<noteq> [] \<and> (\<forall>c\<in>set ds. isdigit c) \<and>
    digits_value 10 ds < 2 ^ 63 \<longrightarrow>
      parse_number conv s = Inr (JInteger (word_of_int (int (digits_value 10 ds))), snd (read_token s))) \<and>
   (trim (fst (read_token s)) = 45 # ds \<and> ds \<noteq> [] \<and> (\<forall>c\<in>set ds. isdigit c) \<and>
    digits_value 10 ds \<le> 2 ^ 63 \<longrightarrow>
      parse_number conv s = Inr (JInteger (word_of_int (- int (digits_value 10 ds))), snd (read_token s))) \<and>
   (\<not> integer_token (trim (fst (read_token s))) \<and>
    stod conv (trim (fst (read_token s))) = Inr (d, length (trim (fst (read_token s)))) \<longrightarrow>
      parse_number conv s = Inr (JDouble d, snd (read_token s))) \<and>
   (trim (fst (read_token s)) = a @ w # b \<and> isspace w \<and> (\<exists>c\<in>set a. \<not> isspace c) \<longrightarrow>
      (\<exists>e. parse_number conv s = Inl e))"
proof -
  let ?nums = "trim (fst (read_token s))"
  have a: "integer_token ?nums \<and> parse_number conv s = Inr (v, s') \<longrightarrow>
      (\<exists>n. v = JInteger n \<and> stoll ?nums = Inr (n, length ?nums)) \<and> s' = snd (read_token s)"
    by (auto simp: parse_number_unfold to_integer_def split: sum.splits if_splits)
  have b: "\<not> integer_token ?nums \<and> parse_number conv s = Inr (v, s') \<longrightarrow>
      (\<exists>d. v = JDouble d \<and> stod conv ?nums = Inr (d, length ?nums)) \<and> s' = snd (read_token s)"
    by (auto simp: parse_number_unfold to_double_def split: sum.splits if_splits)
  have c: "integer_token ?nums \<and> stoll ?nums = Inr (n, pos) \<and> pos \<noteq> length ?nums \<longrightarrow>
      parse_number conv s = Inl UnexpectedIntegerFormat"
    by (simp add: parse_number_unfold to_integer_def)
  have d: "\<not> integer_token ?nums \<and> stod conv ?nums = Inr (d, pos) \<and> pos \<noteq> length ?nums \<longrightarrow>
      parse_number conv s = Inl UnexpectedDoubleFormat"
    by (simp add: parse_number_unfold to_double_def)
  have e: "?nums = [45] \<longrightarrow> parse_number conv s = Inl StdInvalidArgument"
    by (simp add: parse_number_unfold integer_token_def to_integer_def stoll_def isspace_def)
  have f: "?nums = ds \<and> ds \<noteq> [] \<and> (\<forall>c\<in>set ds. isdigit c) \<and> digits_value 10 ds < 2 ^ 63 \<longrightarrow>
      parse_number conv s = Inr (JInteger (word_of_int (int (digits_value 10 ds))), snd (read_token s))"
    by (auto simp: parse_number_unfold integer_token_def to_integer_def stoll_digits)
  have g: "?nums = 45 # ds \<and> ds \<noteq> [] \<and> (\<forall>c\<in>set ds. isdigit c) \<and> digits_value 10 ds \<le> 2 ^ 63 \<longrightarrow>
      parse_number conv s = Inr (JInteger (word_of_int (- int (digits_value 10 ds))), snd (read_token s))"
    by (auto simp: parse_number_unfold integer_token_def to_integer_def stoll_minus_digits)
  have h: "\<not> integer_token ?nums \<and> stod conv ?nums = Inr (d, length ?nums) \<longrightarrow>
      parse_number conv s = Inr (JDouble d, snd (read_token s))"
    by (simp add: parse_number_unfold to_double_def)
  have i: "?nums = a @ w # b \<and> isspace w \<and> (\<exists>c\<in>set a. \<not> isspace c) \<longrightarrow>
      (\<exists>e. parse_number conv s = Inl e)"
  proof (intro impI, elim conjE)
    assume n: "?nums = a @ w # b" and w: "isspace w" and ns: "\<exists>c\<in>set a. \<not> isspace c"
    from w have "\<not> (isdigit w \<or> w = 45)" by (auto simp: isspace_def isdigit_def)
    with n have ni: "\<not> integer_token ?nums" by (auto simp: integer_token_def)
    show "\<exists>e. parse_number conv s = Inl e"
    proof (cases "stod conv ?nums")
      case (Inl e)
      with ni show ?thesis by (simp add: parse_number_unfold to_double_def)
    next
      case (Inr p)
      obtain x pos where p: "p = (x, pos)" by (cases p)
      from Inr p n have "stod conv (a @ w # b) = Inr (x, pos)" by simp
      from stod_stops_at_space [OF this w ns] n have "pos \<noteq> length ?nums" by simp
      with ni Inr p show ?thesis by (simp add: parse_number_unfold to_double_def)
    qed
  qed
  show ?thesis by (intro conjI) (fact a b c d e f g h i)+
qed

theorem number_kind_witness:
  "parse_number numeral_conv (u32 ''9874563121555444'') = Inr (JInteger 9874563121555444, []) \<and>
   parse_number numeral_conv (u32 '' -42 ,7]'') = Inr (JInteger (- 42), u32 '',7]'') \<and>
   parse_number numeral_conv (u32 ''0.124  ]'') = Inr (JDouble (u32 ''0.124''), u32 '']'') \<and>
   parse_number numeral_conv (u32 ''8.7894e+34'') = Inr (JDouble (u32 ''8.7894e+34''), []) \<and>
   parse_number numeral_conv (u32 ''124abc'') = Inl UnexpectedDoubleFormat \<and>
   parse_number numeral_conv (u32 ''1-2'') = Inl UnexpectedIntegerFormat \<and>
   parse_number numeral_conv (u32 ''-'') = Inl StdInvalidArgument \<and>
   parse_number numeral_conv (u32 ''124 000'') = Inl UnexpectedDoubleFormat"
proof -
  note m = number_kind [where ?'a = u8string and conv = numeral_conv]
  note ev = parse_eval numeral_conv_def integer_token_def
  have a: "parse_number numeral_conv (u32 ''9874563121555444'') = Inr (JInteger 9874563121555444, [])"
    using m [where s = "u32 ''9874563121555444''" and ds = "u32 ''9874563121555444''",
        THEN conjunct2, THEN conjunct2, THEN conjunct2, THEN conjunct2, THEN conjunct2,
        THEN conjunct1]
    by (simp add: ev)
  have b: "parse_number numeral_conv (u32 '' -42 ,7]'') = Inr (JInteger (- 42), u32 '',7]'')"
    using m [where s = "u32 '' -42 ,7]''" and ds = "u32 ''42''",
        THEN conjunct2, THEN conjunct2, THEN conjunct2, THEN conjunct2, THEN conjunct2,
        THEN conjunct2, THEN conjunct1]
    by (simp add: ev)
  have c: "parse_number numeral_conv (u32 ''0.124  ]'') = Inr (JDouble (u32 ''0.124''), u32 '']'')"
    using m [where s = "u32 ''0.124  ]''" and d = "u32 ''0.124''",
        THEN conjunct2, THEN conjunct2, THEN conjunct2, THEN conjunct2, THEN conjunct2,
        THEN conjunct2, THEN conjunct2, THEN conjunct1]
    by (simp add: ev)
  have d: "parse_number numeral_conv (u32 ''8.7894e+34'') = Inr (JDouble (u32 ''8.7894e+34''), [])"
    using m [where s = "u32 ''8.7894e+34''" and d = "u32 ''8.7894e+34''",
        THEN conjunct2, THEN conjunct2, THEN conjunct2, THEN conjunct2, THEN conjunct2,
        THEN conjunct2, THEN conjunct2, THEN conjunct1]
    by (simp add: ev)
  have e: "parse_number numeral_conv (u32 ''124abc'') = Inl UnexpectedDoubleFormat"
    using m [where s = "u32 ''124abc''" and d = "u32 ''124''" and pos = 3,
        THEN conjunct2, THEN conjunct2, THEN conjunct2, THEN conjunct1]
    by (simp add: ev)
  have f: "parse_number numeral_conv (u32 ''1-2'') = Inl UnexpectedIntegerFormat"
    using m [where s = "u32 ''1-2''" and n = 1 and pos = 1,
        THEN conjunct2, THEN conjunct2, THEN conjunct1]
    by (simp add: ev)
  have g: "parse_number numeral_conv (u32 ''-'') = Inl StdInvalidArgument"
    using m [where s = "u32 ''-''",
        THEN conjunct2, THEN conjunct2, THEN conjunct2, THEN conjunct2, THEN conjunct1]
    by (simp add: ev)
  have h: "parse_number numeral_conv (u32 ''124 000'') = Inl UnexpectedDoubleFormat"
    using m [where s = "u32 ''124 000''" and a = "u32 ''124''" and w = 32 and b = "u32 ''000''",
        THEN conjunct2, THEN conjunct2, THEN conjunct2, THEN conjunct2, THEN conjunct2,
        THEN conjunct2, THEN conjunct2, THEN conjunct2]
    by (simp add: ev)
  from a b c d e f g h show ?thesis by simp
qed

subsection \<open>Objects: members in key order\<close>

lemma map_find_eq_map_of: "map_find m k = map_of m k"
  by (induction m) auto

lemma assoc_list_rebuild:
  "distinct (map fst m) \<Longrightarrow> m = map (\<lambda>k. (k, the (map_of m k))) (map fst m)"
proof (induction m)
  case Nil
  then show ?case by simp
next
  case (Cons a m)
  obtain k v where a: "a = (k, v)" by (cases a)
  from Cons.prems a have "k \<notin> fst ` set m" and d: "distinct (map fst m)" by auto
  then have "map (\<lambda>x. (x, the (map_of ((k, v) # m) x))) (map fst m)
           = map (\<lambda>x. (x, the (map_of m x))) (map fst m)"
    by (intro map_cong) auto
  with Cons.IH [OF d] show ?case by (simp add: a)
qed

lemma map_wf_unique:
  assumes "map_wf m" "map_wf m'" "map_of m = map_of m'"
  shows "m = m'"
proof -
  from assms(1,2) have s: "sorted (map fst m)" "sorted (map fst m')"
    and d: "distinct (map fst m)" "distinct (map fst m')"
    by (simp_all add: map_wf_def strict_sorted_iff)
  from assms(3) have "dom (map_of m) = dom (map_of m')" by simp
  then have "set (map fst m) = set (map fst m')" by (simp add: dom_map_of_conv_image_fst)
  with s d have k: "map fst m = map fst m'" by (intro sorted_distinct_set_unique)
  from assoc_list_rebuild [OF d(1)] assoc_list_rebuild [OF d(2)] k assms(3)
  show ?thesis by metis
qed

lemma set_map_assign: "set (map_assign k v m) \<subseteq> insert (k, v) (set m)"
proof (induction m)
  case Nil
  then show ?case by simp
next
  case (Cons a m)
  obtain k' v' where a: "a = (k', v')" by (cases a)
  from Cons.IH show ?case unfolding a by (cases "k < k'"; cases "k = k'") auto
qed

lemma wf_json_add_member:
  assumes "wf_json (JObject m)" "wf_json v"
  shows "wf_json (JObject (map_assign k v m))"
proof -
  from assms have "\<forall>kv\<in>set m. wf_json (snd kv)" by (simp add: list_all_iff)
  with assms(2) set_map_assign [of k v m]
  have "\<forall>kv\<in>set (map_assign k v m). wf_json (snd kv)" by auto
  with assms(1) show ?thesis by (simp add: list_all_iff map_wf_assign)
qed

lemma parse_scalars_wf:
  "parse_string s = Inr (v, s') \<Longrightarrow> wf_json v"
  "parse_number conv s = Inr (v, s') \<Longrightarrow> wf_json v"
  "parse_bool s = Inr (v, s') \<Longrightarrow> wf_json v"
  "parse_null s = Inr (v, s') \<Longrightarrow> wf_json v"
  by (auto simp: parse_string_def parse_number_def parse_bool_def parse_null_def Let_def
      split: sum.splits prod.splits if_splits)

lemma parse_wf:
  "parse_value conv s = Inr (v, s') \<Longrightarrow> wf_json v"
  "parse_object conv s = Inr (v, s') \<Longrightarrow> wf_json v"
  "object_loop conv rv s = Inr (v, s') \<Longrightarrow> wf_json rv \<Longrightarrow> json_type rv = object_t \<Longrightarrow>
     wf_json v"
  "parse_array conv s = Inr (v, s') \<Longrightarrow> wf_json v"
  "array_loop conv vec s = Inr (vec', s') \<Longrightarrow> list_all wf_json vec \<Longrightarrow> list_all wf_json vec'"
proof (induction conv s and conv s and conv rv s and conv s and conv vec s
    arbitrary: v s' and v s' and v s' and v s' and vec' s'
    rule: parse_value_parse_object_object_loop_parse_array_array_loop.induct)
  case (1 conv s)
  obtain x s1 where p: "peek_next_non_space s = (x, s1)" by (cases "peek_next_non_space s")
  from "1.prems" p obtain c where x: "x = Some c"
    by (cases x) (auto simp: parse_value.simps [of conv s])
  from "1.prems" p x have
    "(c = 34 \<and> parse_string s1 = Inr (v, s')) \<or>
     (c \<noteq> 34 \<and> c = 91 \<and> parse_array conv s1 = Inr (v, s')) \<or>
     (parse_number conv s1 = Inr (v, s')) \<or>
     (c \<noteq> 34 \<and> c \<noteq> 91 \<and> \<not> (isdigit c \<or> c = 45 \<or> c = 46) \<and> c = 123
        \<and> parse_object conv s1 = Inr (v, s')) \<or>
     (parse_bool s1 = Inr (v, s')) \<or> (parse_null s1 = Inr (v, s'))"
    by (auto simp: parse_value.simps [of conv s] split: if_splits)
  then show ?case
    using "1.IH"(1) [OF p [symmetric] x] "1.IH"(2) [OF p [symmetric] x]
    by (auto dest: parse_scalars_wf)
next
  case (2 conv s)
  from "2.prems" obtain s1 s2 where
    a: "skip_char s 123 = Inr s1" and b: "object_loop conv (JObject []) s1 = Inr (v, s2)"
    by (auto simp: parse_object.simps [of conv s] split: sum.splits)
  from "2.IH" [OF a b] show ?case by (simp add: map_wf_def)
next
  case (3 conv rv s)
  from "3.prems"(3) obtain m where rv: "rv = JObject m" by (cases rv) auto
  obtain x s1 where p: "peek_next_non_space s = (x, s1)" by (cases "peek_next_non_space s")
  show ?case
  proof (cases x)
    case None
    with "3.prems" p show ?thesis by (simp add: object_loop.simps [of conv rv s])
  next
    case (Some c)
    consider (quote) "c = 34" | (close) "c \<noteq> 34" "c = 125" | (comma) "c \<noteq> 34" "c \<noteq> 125" "c = 44"
      | (other) "c \<noteq> 34" "c \<noteq> 125" "c \<noteq> 44" by blast
    then show ?thesis
    proof cases
      case quote
      with "3.prems"(1) p Some obtain k s2 s3 mv s4 rv' where
        a: "parse_member s1 = Inr (k, s2)" and b: "skip_char s2 58 = Inr s3"
        and c: "parse_value conv s3 = Inr (mv, s4)" and d: "add_member rv k mv = Inr rv'"
        and e: "length s4 < length s" and f: "object_loop conv rv' s4 = Inr (v, s')"
        by (auto simp: object_loop.simps [of conv rv s] split: sum.splits if_splits)
      from "3.IH"(1) [OF p [symmetric] Some quote a refl b c] have mv: "wf_json mv" .
      from d rv have rv': "rv' = JObject (map_assign k mv m)" by (simp add: add_member_JObject)
      from wf_json_add_member [OF _ mv] "3.prems"(2) rv rv' have "wf_json rv'" by simp
      with "3.IH"(2) [OF p [symmetric] Some quote a refl b c refl d e f] rv'
      show ?thesis by simp
    next
      case close
      with "3.prems" p Some show ?thesis by (simp add: object_loop.simps [of conv rv s])
    next
      case comma
      with "3.prems"(1) p Some have f: "object_loop conv rv (snd (get_next_non_space s1)) = Inr (v, s')"
        by (simp add: object_loop.simps [of conv rv s])
      from "3.IH"(3) [OF p [symmetric] Some comma f] "3.prems"(2,3) show ?thesis by simp
    next
      case other
      with "3.prems" p Some show ?thesis by (simp add: object_loop.simps [of conv rv s])
    qed
  qed
next
  case (4 conv s)
  from "4.prems" obtain s1 where a: "skip_char s 91 = Inr s1"
    by (auto simp: parse_array.simps [of conv s] split: sum.splits)
  obtain c s2 where p: "peek_next_non_space s1 = (c, s2)" by (cases "peek_next_non_space s1")
  show ?case
  proof (cases "c = Some 93")
    case True
    with "4.prems" a p show ?thesis
      by (auto simp: parse_array.simps [of conv s] split: sum.splits)
  next
    case False
    with "4.prems" a p obtain vec s3 where
      b: "array_loop conv [] s2 = Inr (vec, s3)" and v: "v = JArray vec"
      by (auto simp: parse_array.simps [of conv s] split: sum.splits)
    from "4.IH" [OF a p [symmetric] False b] v show ?thesis by simp
  qed
next
  case (5 conv vec s)
  from "5.prems"(1) obtain e s1 where a: "parse_value conv s = Inr (e, s1)" and l: "length s1 < length s"
    by (auto simp: array_loop.simps [of conv vec s] split: sum.splits if_splits)
  from "5.IH"(1) [OF a] "5.prems"(2) have wf: "list_all wf_json (vec @ [e])" by simp
  obtain c s2 where p: "peek_next_non_space s1 = (c, s2)" by (cases "peek_next_non_space s1")
  consider (comma) "c = Some 44" | (close) "c \<noteq> Some 44" "c = Some 93"
    | (other) "c \<noteq> Some 44" "c \<noteq> Some 93" "c \<noteq> None" | (eof) "c \<noteq> Some 44" "c \<noteq> Some 93" "c = None"
    by blast
  then show ?case
  proof cases
    case comma
    with "5.prems"(1) a l p obtain s3 where b: "skip_char s2 44 = Inr s3"
      and f: "array_loop conv (vec @ [e]) s3 = Inr (vec', s')"
      by (auto simp: array_loop.simps [of conv vec s] split: sum.splits)
    from "5.IH"(2) [OF a refl l p [symmetric] comma b f wf] show ?thesis .
  next
    case close
    with "5.prems"(1) a l p wf show ?thesis by (auto simp: array_loop.simps [of conv vec s])
  next
    case other
    with "5.prems"(1) a l p have f: "array_loop conv (vec @ [e]) s2 = Inr (vec', s')"
      by (auto simp: array_loop.simps [of conv vec s])
    from "5.IH"(3) [OF a refl l p [symmetric] other f wf] show ?thesis .
  next
    case eof
    with "5.prems"(1) a l p wf show ?thesis by (auto simp: array_loop.simps [of conv vec s])
  qed
qed

lemma parse_wf_json: "parse conv t = Inr v \<Longrightarrow> wf_json v"
  by (auto simp: parse_def split: prod.splits sum.splits if_splits dest: parse_wf(2,4))

lemma members_to_string_join:
  "members_to_string fmt m = Inr s \<Longrightarrow>
     \<exists>ts. map (\<lambda>kv. to_string fmt (snd kv)) m = map Inr ts \<and>
          s = join [44] (map2 entry_text (map fst m) ts)"
proof (induction m arbitrary: s)
  case Nil
  then show ?case by simp
next
  case (Cons a m)
  obtain k v where a: "a = (k, v)" by (cases a)
  from Cons.prems a obtain vs ss where v: "to_string fmt v = Inr vs"
    and ms: "members_to_string fmt m = Inr ss"
    and s: "s = [34] @ c_str k @ [34] @ u32 '' : '' @ c_str vs @ (if m \<noteq> [] then [44] else []) @ ss"
    by (auto split: sum.splits)
  from Cons.IH [OF ms] obtain ts where ts: "map (\<lambda>kv. to_string fmt (snd kv)) m = map Inr ts"
    and ss: "ss = join [44] (map2 entry_text (map fst m) ts)" by blast
  from ts have len: "length ts = length m" by (metis length_map)
  have "s = join [44] (map2 entry_text (map fst ((k, v) # m)) (vs # ts))"
  proof (cases m)
    case Nil
    with s ss len show ?thesis by (simp add: entry_text_def)
  next
    case (Cons b m')
    with len obtain t ts' where "ts = t # ts'" by (cases ts) auto
    with s ss Cons show ?thesis by (simp add: entry_text_def)
  qed
  with v ts a show ?case by (intro exI [of _ "vs # ts"]) simp
qed

text \<open>
  C5. An object is serialized with its members in ascending order of their keys, whatever
  the order in which the members were added. The members of an Object are held in key
  order (\<open>map_wf\<close>, the order of \<^verbatim>\<open>std::map\<close>, lexicographic on the keys), and \<^verbatim>\<open>to_string\<close>
  writes \<^verbatim>\<open>{\<close>, the entries \<^verbatim>\<open>"key" : value\<close> in that order separated by commas, and \<^verbatim>\<open>}\<close>.
  Every sequence of \<^verbatim>\<open>add_member\<close> calls on an empty object gives an object in key order
  that holds, for each key added, the value added last; two sequences that agree on
  these values give the same object, hence the same text. \<^verbatim>\<open>add_member\<close> keeps a value
  well-formed, and every value the parser returns is well-formed (each of its objects is
  in key order), whatever the order of the members in the source text.
\<close>

theorem object_serialized_in_key_order:
  fixes m :: "'d json_object" and kvs kvs' :: "(u8string \<times> 'd json) list"
  shows
  "(map_wf m \<and> to_string fmt (JObject m) = Inr s \<longrightarrow>
      sorted_wrt (<) (map fst m) \<and>
      (\<exists>ts. map (\<lambda>kv. to_string fmt (snd kv)) m = map Inr ts \<and>
            s = [123] @ join [44] (map2 entry_text (map fst m) ts) @ [125])) \<and>
   (\<exists>m'. add_members (JObject []) kvs = Inr (JObject m') \<and> map_wf m' \<and>
         set (map fst m') = fst ` set kvs \<and> map_of m' = map_of (rev kvs)) \<and>
   (map_of (rev kvs) = map_of (rev kvs') \<longrightarrow>
      add_members (JObject []) kvs = add_members (JObject []) kvs') \<and>
   (wf_json (JObject m) \<and> wf_json v \<longrightarrow>
      add_member (JObject m) k v = Inr (JObject (map_assign k v m)) \<and>
      wf_json (JObject (map_assign k v m))) \<and>
   (parse conv t = Inr v \<longrightarrow> wf_json v)"
proof -
  let ?f = "\<lambda>kvs. foldl (\<lambda>m (k, v). map_assign k v m) [] kvs"
  have wf: "map_wf (?f kvs)" for kvs :: "(u8string \<times> 'd json) list"
    by (rule map_wf_foldl_assign) (simp add: map_wf_def)
  have mo: "map_of (?f kvs) = map_of (rev kvs)" for kvs :: "(u8string \<times> 'd json) list"
  proof
    fix k
    show "map_of (?f kvs) k = map_of (rev kvs) k"
      using map_find_foldl_assign [of "[]" kvs k]
      by (simp add: map_find_eq_map_of split: option.splits)
  qed
  have a: "map_wf m \<and> to_string fmt (JObject m) = Inr s \<longrightarrow>
      sorted_wrt (<) (map fst m) \<and>
      (\<exists>ts. map (\<lambda>kv. to_string fmt (snd kv)) m = map Inr ts \<and>
            s = [123] @ join [44] (map2 entry_text (map fst m) ts) @ [125])"
    by (auto simp: map_wf_def split: sum.splits dest!: members_to_string_join)
  have b: "\<exists>m'. add_members (JObject []) kvs = Inr (JObject m') \<and> map_wf m' \<and>
         set (map fst m') = fst ` set kvs \<and> map_of m' = map_of (rev kvs)"
  proof -
    have "dom (map_of (?f kvs)) = dom (map_of (rev kvs))" by (simp add: mo)
    then have "set (map fst (?f kvs)) = fst ` set kvs"
      by (simp add: dom_map_of_conv_image_fst)
    with wf [of kvs] mo [of kvs] show ?thesis
      by (intro exI [of _ "?f kvs"]) (simp add: add_members_JObject)
  qed
  have c: "map_of (rev kvs) = map_of (rev kvs') \<longrightarrow>
      add_members (JObject []) kvs = add_members (JObject []) kvs'"
  proof
    assume "map_of (rev kvs) = map_of (rev kvs')"
    then have "map_of (?f kvs) = map_of (?f kvs')" by (simp add: mo)
    from map_wf_unique [OF wf wf this] show "add_members (JObject []) kvs = add_members (JObject []) kvs'"
      by (simp add: add_members_JObject)
  qed
  have d: "wf_json (JObject m) \<and> wf_json v \<longrightarrow>
      add_member (JObject m) k v = Inr (JObject (map_assign k v m)) \<and>
      wf_json (JObject (map_assign k v m))"
    using wf_json_add_member [of m v k] by (simp add: add_member_JObject)
  have e: "parse conv t = Inr v \<longrightarrow> wf_json v"
    by (auto dest: parse_wf_json)
  show ?thesis by (intro conjI) (fact a b c d e)+
qed

lemmas to_string_eval = to_string.simps members_to_string.simps elements_to_string.simps
  get_string_def get_integer_def get_double_def get_bool_def get_object_def get_array_def
  CHECK_TYPE_MISMATCH_def to_string_ll_def digits_of.simps c_str_def u32_def

theorem object_serialized_in_key_order_witness:
  "to_string example_fmt (JObject [(u32 ''a'', JInteger 2), (u32 ''b'', JInteger 1)])
     = Inr (u32 ''{\"a\" : 2,\"b\" : 1}'') \<and>
   add_members (JObject []) [(u32 ''b'', JInteger 1), (u32 ''a'', JInteger 2 :: example_double json)]
     = Inr (JObject [(u32 ''a'', JInteger 2), (u32 ''b'', JInteger 1)]) \<and>
   add_members (JObject []) [(u32 ''a'', JInteger 2), (u32 ''b'', JInteger 1 :: example_double json)]
     = Inr (JObject [(u32 ''a'', JInteger 2), (u32 ''b'', JInteger 1)]) \<and>
   parse example_conv (u32 ''{\"b\":1,\"a\":2}'')
     = Inr (JObject [(u32 ''a'', JInteger 2), (u32 ''b'', JInteger 1)]) \<and>
   wf_json (JObject [(u32 ''a'', JInteger 2), (u32 ''b'', JInteger 1 :: example_double json)]) \<and>
   sorted_wrt (<) [u32 ''a'', u32 ''b'']"
proof -
  let ?m = "[(u32 ''a'', JInteger 2), (u32 ''b'', JInteger 1 :: example_double json)]"
  let ?kvs = "[(u32 ''b'', JInteger 1), (u32 ''a'', JInteger 2 :: example_double json)]"
  note m = object_serialized_in_key_order [where ?'d = example_double and fmt = example_fmt
      and conv = example_conv and m = ?m and kvs = ?kvs and kvs' = ?m
      and s = "u32 ''{\"a\" : 2,\"b\" : 1}''" and v = "JObject ?m" and k = "u32 ''c''"
      and t = "u32 ''{\"b\":1,\"a\":2}''"]
  have wf: "map_wf ?m" by (simp add: map_wf_def u32_def)
  have ts: "to_string example_fmt (JObject ?m) = Inr (u32 ''{\"a\" : 2,\"b\" : 1}'')"
    by (simp add: to_string_eval)
  have p: "parse example_conv (u32 ''{\"b\":1,\"a\":2}'') = Inr (JObject ?m)"
    by (simp add: parse_eval)
  have am1: "add_members (JObject []) ?kvs = Inr (JObject ?m)"
    and am2: "add_members (JObject []) ?m = Inr (JObject ?m)"
    by (simp_all add: add_members_def add_member_def CHECK_TYPE_MISMATCH_def u32_def)
  have mo: "map_of (rev ?kvs) = map_of (rev ?m)"
    by (rule ext) (simp add: u32_def)
  have s: "sorted_wrt (<) [u32 ''a'', u32 ''b'']"
    using m [THEN conjunct1] wf ts by simp
  have eq: "add_members (JObject []) ?kvs = add_members (JObject []) ?m"
    using m [THEN conjunct2, THEN conjunct2, THEN conjunct1] mo by simp
  have w: "wf_json (JObject ?m)"
    using m [THEN conjunct2, THEN conjunct2, THEN conjunct2, THEN conjunct2] p by simp
  from ts am1 am2 eq p w s show ?thesis by simp
qed

subsection \<open>Round trip through the serializer\<close>








lemma delim_start_cases: "r = [] \<or> is_delimiter (hd r) \<Longrightarrow> r = [] \<or> (\<exists>c r'. r = c # r' \<and> is_delimiter c)"
  by (cases r) auto





















lemma value_rtE:
  assumes "value_rt conv fmt v"
  obtains t where "to_string fmt v = Inr t" "t \<noteq> []" "value_start (hd t)" "0 \<notin> set t"
    "\<And>r. r = [] \<or> is_delimiter (hd r) \<Longrightarrow> parse_value conv (t @ r) = Inr (v, r)"
  using assms unfolding value_rt_def by blast




























end
